theory Spec2Isabelle
  imports Main
begin

section \<open>The stop-waiter lifecycle controller (util/stopwaiter/stopwaiter.go)\<close>

text \<open>
  The Go package supervises goroutines under one cancellable context.  The embedding has
  three layers.
  \<^item> The struct \<open>StopWaiterSafe\<close> is a record; the Go runtime objects it touches (cancellation
    of contexts, channels, goroutines, the clock, the log) are a second record, \<open>runtime\<close>.
    Every method whose body runs under \<open>s.mutex\<close> is one atomic function on the pair.
  \<^item> Methods that are not atomic (\<open>LaunchThreadSafe\<close>, \<open>stopAndWaitImpl\<close>) and the goroutines
    the package starts are threads with a program counter named after the source line about
    to be executed; \<open>step\<close> executes one statement of one thread, \<open>run\<close> a whole schedule.
  \<^item> The loop bodies of the combinators are functions from what the environment does in each
    iteration (what \<open>foo\<close> returns, which \<open>select\<close> case fires) to the trace of what the body
    does.
\<close>

subsection \<open>Contexts, errors, the struct\<close>

text \<open>
  A context is the list of cancellation sources that cancel it, innermost first:
  \<open>context.WithCancel\<close> puts a fresh \<open>Derived\<close> source in front of the parent's list, so that
  cancelling the parent cancels the child and not the other way round.  \<open>External\<close> sources
  belong to the caller of the package (the parent context and its ancestors).
  \<open>context.Background()\<close> is the empty list.  Fields of interface or function type are
  \<open>option\<close>s, \<open>None\<close> being Go's \<open>nil\<close>.
\<close>

datatype token = External nat | Derived nat

type_synonym "context" = "token list"

type_synonym chan = nat

type_synonym duration = int

datatype error = errors_New string

definition ErrNotStarted :: error where
  "ErrNotStarted = errors_New ''not started''"

definition ErrStartAfterStart :: error where
  "ErrStartAfterStart = errors_New ''start after start''"

definition ErrStopped :: error where
  "ErrStopped = errors_New ''stopped''"

record StopWaiterSafe =
  started :: bool
  stopped :: bool
  ctx :: "context option"
  parentCtx :: "context option"
  stopFunc :: "token option"
  name :: string
  waitChan :: "chan option"
  wg :: int

text \<open>The zero value of the struct, which is how every controller begins.\<close>

definition zero_StopWaiterSafe :: StopWaiterSafe where
  "zero_StopWaiterSafe =
     \<lparr>started = False, stopped = False, ctx = None, parentCtx = None, stopFunc = None,
      name = [], waitChan = None, wg = 0\<rparr>"

subsection \<open>Threads and the runtime\<close>

text \<open>
  Program counters carry the number of the source line whose statement is executed next and
  the local variables alive there.  \<open>R124\<close>, \<open>R132\<close>, \<open>R143\<close> and \<open>R146\<close> are the four
  \<open>return\<close> statements of \<open>stopAndWaitImpl\<close>, already executed.
\<close>

datatype wpc = W159 | W160 | W161 | W_exit

datatype tpc = T179 | T180 | T_exit

datatype lpc =
    L170
  | L174 "context option"
  | L177 "context option"
  | L178 "context option"
  | L_ret "error option"

datatype spc =
    S121
  | S122
  | S130
  | S134 chan
  | S136 chan int
  | S145 chan
  | R124
  | R132 error
  | R143
  | R146

datatype 'f thread =
    Watcher wpc "context option" chan
  | Task tpc 'f "context option"
  | LaunchCall lpc 'f
  | StopCall spc duration

datatype log_record = Warn_taking_too_long string duration | Warn_traces

record 'f runtime =
  cancelled :: "token set"
  closed :: "chan set"
  next_token :: nat
  next_chan :: nat
  threads :: "'f thread list"
  now :: int
  logged :: "log_record list"
  panicked :: bool

type_synonym 'f world = "StopWaiterSafe \<times> 'f runtime"

definition init_runtime :: "'f runtime" where
  "init_runtime =
     \<lparr>cancelled = {}, closed = {}, next_token = 0, next_chan = 0, threads = [],
      now = 0, logged = [], panicked = False\<rparr>"

definition init_world :: "'f world" where
  "init_world = (zero_StopWaiterSafe, init_runtime)"

text \<open>\<open>ctx.Err() != nil\<close>, which is also whether \<open>ctx.Done()\<close> is closed.\<close>

definition ctx_Err :: "'f runtime \<Rightarrow> context \<Rightarrow> bool" where
  "ctx_Err rt c = (\<exists>t \<in> set c. t \<in> cancelled rt)"

definition WithCancel :: "context \<Rightarrow> 'f runtime \<Rightarrow> (context \<times> token) \<times> 'f runtime" where
  "WithCancel parent rt =
     (let t = Derived (next_token rt)
      in ((t # parent, t), rt\<lparr>next_token := Suc (next_token rt)\<rparr>))"

definition cancel :: "token \<Rightarrow> 'f runtime \<Rightarrow> 'f runtime" where
  "cancel t rt = rt\<lparr>cancelled := insert t (cancelled rt)\<rparr>"

definition panic :: "'f runtime \<Rightarrow> 'f runtime" where
  "panic rt = rt\<lparr>panicked := True\<rparr>"

text \<open>Calling a function-typed field: a \<open>nil\<close> function value panics.\<close>

definition call_stopFunc :: "token option \<Rightarrow> 'f runtime \<Rightarrow> 'f runtime" where
  "call_stopFunc f rt = (case f of None \<Rightarrow> panic rt | Some t \<Rightarrow> cancel t rt)"

definition make_chan :: "'f runtime \<Rightarrow> chan \<times> 'f runtime" where
  "make_chan rt = (next_chan rt, rt\<lparr>next_chan := Suc (next_chan rt)\<rparr>)"

text \<open>\<open>close(ch)\<close>; closing a closed channel panics.\<close>

definition close_chan :: "chan \<Rightarrow> 'f runtime \<Rightarrow> 'f runtime" where
  "close_chan ch rt =
     (if ch \<in> closed rt then panic rt else rt\<lparr>closed := insert ch (closed rt)\<rparr>)"

definition go :: "'f thread \<Rightarrow> 'f runtime \<Rightarrow> 'f runtime" where
  "go t rt = rt\<lparr>threads := threads rt @ [t]\<rparr>"

subsection \<open>The methods that run under the mutex\<close>

definition Started :: "StopWaiterSafe \<Rightarrow> bool" where
  "Started s = started s"

definition Stopped :: "StopWaiterSafe \<Rightarrow> bool" where
  "Stopped s = stopped s"

definition getContext :: "StopWaiterSafe \<Rightarrow> error + context option" where
  "getContext s = (if started s then Inr (ctx s) else Inl ErrNotStarted)"

definition getParentContext :: "StopWaiterSafe \<Rightarrow> error + context option" where
  "getParentContext s = (if started s then Inr (parentCtx s) else Inl ErrNotStarted)"

definition GetContextSafe :: "StopWaiterSafe \<Rightarrow> error + context option" where
  "GetContextSafe s = getContext s"

definition GetParentContextSafe :: "StopWaiterSafe \<Rightarrow> error + context option" where
  "GetParentContextSafe s = getParentContext s"

text \<open>
  \<open>getParentName\<close> gets \<open>reflect.TypeOf(parent).String()\<close> as its argument and removes the
  first asterisk from it.
\<close>

definition getParentName :: "string \<Rightarrow> string" where
  "getParentName ty = remove1 (CHR ''*'') ty"

text \<open>
  \<open>Start\<close>: the context argument is a live context (\<open>context.WithCancel\<close> panics on \<open>nil\<close>),
  the second argument is the type name of \<open>parent\<close>.
\<close>

fun Start :: "context \<Rightarrow> string \<Rightarrow> 'f world \<Rightarrow> error option \<times> 'f world" where
  "Start c parent (s, rt) =
     (if started s then (Some ErrStartAfterStart, (s, rt))
      else
        let s1 = s\<lparr>started := True, name := getParentName parent, parentCtx := Some c\<rparr>;
            ((c', stop), rt1) = WithCancel c rt;
            s2 = s1\<lparr>ctx := Some c', stopFunc := Some stop\<rparr>
        in if stopped s2 then (None, (s2, call_stopFunc (stopFunc s2) rt1))
           else (None, (s2, rt1)))"

fun StopOnly :: "'f world \<Rightarrow> 'f world" where
  "StopOnly (s, rt) =
     (let rt1 = (if started s \<and> \<not> stopped s then call_stopFunc (stopFunc s) rt else rt)
      in (s\<lparr>stopped := True\<rparr>, rt1))"

text \<open>
  \<open>GetWaitChannel\<close> makes the channel and starts the watcher goroutine the first time it
  is called on a started controller, and hands out the same channel ever after.
\<close>

fun GetWaitChannel :: "'f world \<Rightarrow> (error + chan) \<times> 'f world" where
  "GetWaitChannel (s, rt) =
     (case waitChan s of
        Some ch \<Rightarrow> (Inr ch, (s, rt))
      | None \<Rightarrow>
          (case getContext s of
             Inl err \<Rightarrow> (Inl err, (s, rt))
           | Inr c \<Rightarrow>
               let (ch, rt1) = make_chan rt;
                   rt2 = go (Watcher W159 c ch) rt1
               in (Inr ch, (s\<lparr>waitChan := Some ch\<rparr>, rt2))))"

text \<open>\<open>s.wg.Add(1)\<close> and \<open>s.wg.Done()\<close>; a negative counter panics.\<close>

fun wg_Add :: "int \<Rightarrow> 'f world \<Rightarrow> 'f world" where
  "wg_Add d (s, rt) =
     (if wg s + d < 0 then (s, panic rt) else (s\<lparr>wg := wg s + d\<rparr>, rt))"

definition wg_Done :: "'f world \<Rightarrow> 'f world" where
  "wg_Done w = wg_Add (- 1) w"

text \<open>
  \<open>LaunchThreadSafe\<close> executed without another thread in between.  The goroutine it starts
  is \<open>Task T179 foo c\<close>: it calls \<open>foo(ctx)\<close> and then \<open>s.wg.Done()\<close>.
\<close>

fun LaunchThreadSafe :: "'f \<Rightarrow> 'f world \<Rightarrow> error option \<times> 'f world" where
  "LaunchThreadSafe foo (s, rt) =
     (case GetContextSafe s of
        Inl err \<Rightarrow> (Some err, (s, rt))
      | Inr c \<Rightarrow>
          if Stopped s then (None, (s, rt))
          else
            let (s1, rt1) = wg_Add 1 (s, rt)
            in (None, (s1, go (Task T179 foo c) rt1)))"

subsection \<open>One statement of one thread\<close>

text \<open>
  \<open>thread_step\<close> executes the statement at the program counter of a thread and gives the
  thread's next program counter and the world, or \<open>None\<close> when the statement blocks there
  (a receive from an open channel, \<open>wg.Wait()\<close> with a positive counter) or the thread has
  ended.  The flag chooses the case of the \<open>select\<close> at line 136 of \<open>stopAndWaitImpl\<close>:
  \<open>True\<close> is \<open>case <-timer.C\<close>, \<open>False\<close> is \<open>case <-waitChan\<close>; Go chooses among the
  ready cases at random.  At \<open>T179\<close> the step is the return of \<open>foo(ctx)\<close>, which the caller's
  function decides.
\<close>

fun watcher_step :: "wpc \<Rightarrow> context option \<Rightarrow> chan \<Rightarrow> 'f world \<Rightarrow> (wpc \<times> 'f world) option" where
  "watcher_step W159 c ch (s, rt) =
     (case c of
        None \<Rightarrow> Some (W_exit, (s, panic rt))
      | Some c' \<Rightarrow> if ctx_Err rt c' then Some (W160, (s, rt)) else None)"
| "watcher_step W160 c ch (s, rt) = (if wg s = 0 then Some (W161, (s, rt)) else None)"
| "watcher_step W161 c ch (s, rt) = Some (W_exit, (s, close_chan ch rt))"
| "watcher_step W_exit c ch (s, rt) = None"

fun task_step :: "tpc \<Rightarrow> 'f world \<Rightarrow> (tpc \<times> 'f world) option" where
  "task_step T179 w = Some (T180, w)"
| "task_step T180 w = Some (T_exit, wg_Done w)"
| "task_step T_exit w = None"

fun launch_step :: "lpc \<Rightarrow> 'f \<Rightarrow> 'f world \<Rightarrow> (lpc \<times> 'f world) option" where
  "launch_step L170 foo (s, rt) =
     (case GetContextSafe s of
        Inl err \<Rightarrow> Some (L_ret (Some err), (s, rt))
      | Inr c \<Rightarrow> Some (L174 c, (s, rt)))"
| "launch_step (L174 c) foo (s, rt) =
     (if Stopped s then Some (L_ret None, (s, rt)) else Some (L177 c, (s, rt)))"
| "launch_step (L177 c) foo w = Some (L178 c, wg_Add 1 w)"
| "launch_step (L178 c) foo (s, rt) = Some (L_ret None, (s, go (Task T179 foo c) rt))"
| "launch_step (L_ret r) foo w = None"

fun stop_step :: "spc \<Rightarrow> duration \<Rightarrow> bool \<Rightarrow> 'f world \<Rightarrow> (spc \<times> 'f world) option" where
  "stop_step S121 wt tm w = Some (S122, StopOnly w)"
| "stop_step S122 wt tm (s, rt) =
     (if \<not> Started s then Some (R124, (s, rt)) else Some (S130, (s, rt)))"
| "stop_step S130 wt tm w =
     (case GetWaitChannel w of
        (Inl err, w') \<Rightarrow> Some (R132 err, w')
      | (Inr ch, w') \<Rightarrow> Some (S134 ch, w'))"
| "stop_step (S134 ch) wt tm (s, rt) = Some (S136 ch (now rt + wt), (s, rt))"
| "stop_step (S136 ch deadline) wt tm (s, rt) =
     (if tm then
        (if deadline \<le> now rt
         then Some (S145 ch,
                (s, rt\<lparr>logged := logged rt @ [Warn_taking_too_long (name s) wt, Warn_traces]\<rparr>))
         else None)
      else (if ch \<in> closed rt then Some (R143, (s, rt)) else None))"
| "stop_step (S145 ch) wt tm (s, rt) = (if ch \<in> closed rt then Some (R146, (s, rt)) else None)"
| "stop_step R124 wt tm w = None"
| "stop_step (R132 err) wt tm w = None"
| "stop_step R143 wt tm w = None"
| "stop_step R146 wt tm w = None"

fun thread_step :: "'f thread \<Rightarrow> bool \<Rightarrow> 'f world \<Rightarrow> ('f thread \<times> 'f world) option" where
  "thread_step (Watcher pc c ch) tm w =
     map_option (\<lambda>(pc', w'). (Watcher pc' c ch, w')) (watcher_step pc c ch w)"
| "thread_step (Task pc foo c) tm w =
     map_option (\<lambda>(pc', w'). (Task pc' foo c, w')) (task_step pc w)"
| "thread_step (LaunchCall pc foo) tm w =
     map_option (\<lambda>(pc', w'). (LaunchCall pc' foo, w')) (launch_step pc foo w)"
| "thread_step (StopCall pc wt) tm w =
     map_option (\<lambda>(pc', w'). (StopCall pc' wt, w')) (stop_step pc wt tm w)"

subsection \<open>Schedules\<close>

text \<open>
  An action is a call arriving from outside (the atomic methods at once, the others as a
  new thread at their first line), an outside cancellation of an \<open>External\<close> source (the
  parent context is cancelled), the passing of time, or the next statement of thread \<open>i\<close>.
  A panic ends the program: nothing is enabled after it.
\<close>

datatype 'f action =
    Call_Start "context" string
  | Call_StopOnly
  | Call_GetWaitChannel
  | Call_StopAndWait duration
  | Call_LaunchThreadSafe 'f
  | Cancel_external nat
  | Tick nat
  | Step nat
  | Step_timer nat

definition set_thread :: "nat \<Rightarrow> 'f thread \<Rightarrow> 'f world \<Rightarrow> 'f world" where
  "set_thread i t w = (fst w, (snd w)\<lparr>threads := (threads (snd w))[i := t]\<rparr>)"

definition exec_thread :: "nat \<Rightarrow> bool \<Rightarrow> 'f world \<Rightarrow> 'f world option" where
  "exec_thread i tm w =
     (if i < length (threads (snd w))
      then map_option (\<lambda>(t', w'). set_thread i t' w') (thread_step (threads (snd w) ! i) tm w)
      else None)"

fun act :: "'f action \<Rightarrow> 'f world \<Rightarrow> 'f world option" where
  "act (Call_Start c parent) w = Some (snd (Start c parent w))"
| "act Call_StopOnly w = Some (StopOnly w)"
| "act Call_GetWaitChannel w = Some (snd (GetWaitChannel w))"
| "act (Call_StopAndWait wt) (s, rt) = Some (s, go (StopCall S121 wt) rt)"
| "act (Call_LaunchThreadSafe foo) (s, rt) = Some (s, go (LaunchCall L170 foo) rt)"
| "act (Cancel_external n) (s, rt) = Some (s, cancel (External n) rt)"
| "act (Tick d) (s, rt) = Some (s, rt\<lparr>now := now rt + int d\<rparr>)"
| "act (Step i) w = exec_thread i False w"
| "act (Step_timer i) w = exec_thread i True w"

definition step :: "'f action \<Rightarrow> 'f world \<Rightarrow> 'f world option" where
  "step a w = (if panicked (snd w) then None else act a w)"

fun run :: "'f action list \<Rightarrow> 'f world \<Rightarrow> 'f world option" where
  "run [] w = Some w"
| "run (a # as) w = (case step a w of None \<Rightarrow> None | Some w' \<Rightarrow> run as w')"

subsection \<open>\<open>StopAndWait\<close>\<close>

definition stopDelayWarningTimeout :: duration where
  "stopDelayWarningTimeout = 30 * 1000000000"

text \<open>\<open>StopAndWait()\<close> is \<open>stopAndWaitImpl(stopDelayWarningTimeout)\<close>, a thread at line 121.\<close>

definition StopAndWait :: "'f action" where
  "StopAndWait = Call_StopAndWait stopDelayWarningTimeout"

text \<open>The warnings \<open>stopAndWaitImpl\<close> has written to the log.\<close>

fun is_too_long :: "log_record \<Rightarrow> bool" where
  "is_too_long (Warn_taking_too_long n d) = True"
| "is_too_long Warn_traces = False"

definition warnings :: "'f world \<Rightarrow> nat" where
  "warnings w = length (filter is_too_long (logged (snd w)))"

subsection \<open>The function values handed to \<open>LaunchThreadSafe\<close>\<close>

text \<open>
  A caller's function is a value of type \<open>'u\<close>.  The combinators pass a function literal,
  which is the literal's place in the source and the variables it captures.
\<close>

datatype 'u closure =
    User 'u
  | Body_194 'u
  | Body_229 'u chan
  | Body_262 'u chan
  | Body_294 'u "context" token
  | Body_311 chan chan 'u

definition CallIterativelySafe :: "'u \<Rightarrow> 'u closure world \<Rightarrow> error option \<times> 'u closure world" where
  "CallIterativelySafe foo w = LaunchThreadSafe (Body_194 foo) w"

definition CallIterativelyWith ::
    "'u \<Rightarrow> chan \<Rightarrow> 'u closure world \<Rightarrow> error option \<times> 'u closure world" where
  "CallIterativelyWith foo triggerChan w = LaunchThreadSafe (Body_229 foo triggerChan) w"

definition CallWhenTriggeredWith ::
    "'u \<Rightarrow> chan \<Rightarrow> 'u closure world \<Rightarrow> error option \<times> 'u closure world" where
  "CallWhenTriggeredWith foo triggerChan w = LaunchThreadSafe (Body_262 foo triggerChan) w"

subsection \<open>The loop bodies\<close>

text \<open>
  A body is run against a list of iterations, each saying what the environment does in that
  pass of the loop: what \<open>foo\<close> returns, whether \<open>ctx.Err()\<close> is non-nil when the body asks,
  which case of the \<open>select\<close> fires.  The result is the trace of what the body does and
  whether it has returned.  The list is a finite prefix of what happens: when it runs out
  the body is \<open>Running\<close>, blocked in its last statement (inside \<open>foo\<close>, or in a \<open>select\<close>).
  The Boolean argument of a body says whether the scope is cancelled already when the body
  starts; after a check that found the scope live it is \<open>False\<close>.
\<close>

datatype status = Running | Returned

datatype 'a event = Invoke 'a | Check_Err bool | NewTimer duration | Timer_Stop

definition emit :: "'e list \<Rightarrow> 'e list \<times> status \<Rightarrow> 'e list \<times> status" where
  "emit es r = (es @ fst r, snd r)"

text \<open>\<open>CallIterativelySafe\<close>, lines 195 to 210.\<close>

datatype select_204 = Done_205 | Timer_208

datatype iteration_194 =
  Iteration_194 (interval_196: duration) (cancelled_197: bool) (select_204: select_204)

fun body_194 :: "bool \<Rightarrow> iteration_194 list \<Rightarrow> unit event list \<times> status" where
  "body_194 c [] = ([Invoke ()], Running)"
| "body_194 c (it # its) =
     (if c \<or> cancelled_197 it then ([Invoke (), Check_Err True], Returned)
      else if interval_196 it = 0
      then emit [Invoke (), Check_Err False] (body_194 False its)
      else
        (case select_204 it of
           Done_205 \<Rightarrow>
             ([Invoke (), Check_Err False, NewTimer (interval_196 it), Timer_Stop], Returned)
         | Timer_208 \<Rightarrow>
             emit [Invoke (), Check_Err False, NewTimer (interval_196 it)]
               (body_194 False its)))"

text \<open>
  \<open>CallIterativelyWith\<close>, lines 230 to 253.  \<open>dflt\<close> is the zero value of \<open>T\<close>, \<open>val\<close> the
  variable of that name.  \<open>Closed_248\<close> is the receive at line 248 with \<open>ok\<close> false.
\<close>

datatype 'a select_243 = Done_244 | Timer_247 | Recv_248 'a | Closed_248

datatype 'a iteration_229 =
  Iteration_229 (interval_234: duration) (cancelled_235: bool) (select_243: "'a select_243")

fun body_229 :: "'a \<Rightarrow> bool \<Rightarrow> 'a \<Rightarrow> 'a iteration_229 list \<Rightarrow> 'a event list \<times> status" where
  "body_229 dflt c val [] = ([Invoke val], Running)"
| "body_229 dflt c val (it # its) =
     (if c \<or> cancelled_235 it then ([Invoke val, Check_Err True], Returned)
      else if interval_234 it = 0
      then emit [Invoke val, Check_Err False] (body_229 dflt False dflt its)
      else
        (case select_243 it of
           Done_244 \<Rightarrow>
             ([Invoke val, Check_Err False, NewTimer (interval_234 it), Timer_Stop], Returned)
         | Timer_247 \<Rightarrow>
             emit [Invoke val, Check_Err False, NewTimer (interval_234 it)]
               (body_229 dflt False dflt its)
         | Recv_248 v \<Rightarrow>
             emit [Invoke val, Check_Err False, NewTimer (interval_234 it)]
               (body_229 dflt False v its)
         | Closed_248 \<Rightarrow>
             ([Invoke val, Check_Err False, NewTimer (interval_234 it)], Returned)))"

text \<open>
  \<open>CallWhenTriggeredWith\<close>, lines 263 to 273.  The receive at line 270 does not look at
  \<open>ok\<close>: from a closed channel it gets the zero value at once.  An iteration here ends
  with the return of \<open>foo\<close>.
\<close>

datatype 'a select_267 = Done_268 | Recv_270 'a | Closed_270

datatype 'a iteration_262 = Iteration_262 (cancelled_264: bool) (select_267: "'a select_267")

fun body_262 :: "'a \<Rightarrow> bool \<Rightarrow> 'a iteration_262 list \<Rightarrow> 'a event list \<times> status" where
  "body_262 dflt c [] = ([], Running)"
| "body_262 dflt c (it # its) =
     (if c \<or> cancelled_264 it then ([Check_Err True], Returned)
      else
        (case select_267 it of
           Done_268 \<Rightarrow> ([Check_Err False], Returned)
         | Recv_270 v \<Rightarrow> emit [Check_Err False, Invoke v] (body_262 dflt False its)
         | Closed_270 \<Rightarrow> emit [Check_Err False, Invoke dflt] (body_262 dflt False its)))"

text \<open>The values \<open>foo\<close> was called with, in order.\<close>

fun invocations :: "'a event list \<Rightarrow> 'a list" where
  "invocations [] = []"
| "invocations (Invoke v # es) = v # invocations es"
| "invocations (e # es) = invocations es"

text \<open>No \<open>ctx.Err()\<close> check but right after a call of \<open>foo\<close>, and none first.\<close>

fun checks_after_calls :: "'a event list \<Rightarrow> bool" where
  "checks_after_calls [] = True"
| "checks_after_calls (Check_Err b # es) = False"
| "checks_after_calls (Invoke v # Check_Err b # es) = checks_after_calls es"
| "checks_after_calls (e # es) = checks_after_calls es"

subsection \<open>\<open>ChanRateLimiter\<close>\<close>

text \<open>
  The body, lines 312 to 325.  Times are nanoseconds on one clock.  An iteration is the
  \<open>select\<close> at line 314: the scope is done, or a value is received, and then \<open>time.Now()\<close>
  at line 319, what \<open>maxRateCallback()\<close> returns if it is called, and whether a receiver
  ever takes the value from the unbuffered \<open>outChan\<close> at line 321.  A receive from a closed
  \<open>inChan\<close> is a receive of the zero value.  The result has the last
  \<open>nextAllowedTriggerTime\<close>.
\<close>

datatype 'a iteration_311 = Done_315 | Recv_318 'a int duration bool

datatype 'a forwarder_event = Send_outChan 'a | Close_outChan

fun body_311 :: "int \<Rightarrow> 'a iteration_311 list \<Rightarrow> 'a forwarder_event list \<times> status \<times> int" where
  "body_311 nextAllowedTriggerTime [] = ([], Running, nextAllowedTriggerTime)"
| "body_311 nextAllowedTriggerTime (Done_315 # its) =
     ([Close_outChan], Returned, nextAllowedTriggerTime)"
| "body_311 nextAllowedTriggerTime (Recv_318 data now' rate taken # its) =
     (if now' > nextAllowedTriggerTime
      then
        (if taken
         then (case body_311 (now' + rate) its of
                 (es, st, n) \<Rightarrow> (Send_outChan data # es, st, n))
         else ([], Running, nextAllowedTriggerTime))
      else body_311 nextAllowedTriggerTime its)"

fun ChanRateLimiter ::
    "chan \<Rightarrow> 'u \<Rightarrow> 'u closure world \<Rightarrow> (error + chan) \<times> 'u closure world" where
  "ChanRateLimiter inChan maxRateCallback (s, rt) =
     (let (outChan, rt1) = make_chan rt;
          (err, (s2, rt2)) = LaunchThreadSafe (Body_311 inChan outChan maxRateCallback) (s, rt1)
      in (case err of
            Some e \<Rightarrow> (Inl e, (s2, close_chan outChan rt2))
          | None \<Rightarrow> (Inr outChan, (s2, rt2))))"

subsection \<open>\<open>LaunchPromiseThread\<close>\<close>

text \<open>
  Modelled from the spec: \<open>containers.Promise\<close>, \<open>NewPromise\<close>, \<open>Produce\<close> and
  \<open>ProduceError\<close> are not among the sources.  A promise has a result that is pending, a
  value or an error, set by the first resolution, and a cancel function.  The record keeps
  every resolution made on the promise, in order, so that a second one shows.
\<close>

record 'v Promise =
  resolutions :: "(error + 'v) list"
  cancelFn :: "token option"

datatype 'v promise_result = Pending | Value 'v | Error error

definition NewPromise :: "token option \<Rightarrow> 'v Promise" where
  "NewPromise cancel' = \<lparr>resolutions = [], cancelFn = cancel'\<rparr>"

definition Produce :: "'v \<Rightarrow> 'v Promise \<Rightarrow> 'v Promise" where
  "Produce v p = p\<lparr>resolutions := resolutions p @ [Inr v]\<rparr>"

definition ProduceError :: "error \<Rightarrow> 'v Promise \<Rightarrow> 'v Promise" where
  "ProduceError e p = p\<lparr>resolutions := resolutions p @ [Inl e]\<rparr>"

definition result :: "'v Promise \<Rightarrow> 'v promise_result" where
  "result p =
     (case resolutions p of [] \<Rightarrow> Pending | Inl e # _ \<Rightarrow> Error e | Inr v # _ \<Rightarrow> Value v)"

text \<open>
  \<open>LaunchPromiseThread\<close> on a \<open>StopWaiterSafe\<close>, the \<open>ThreadLauncher\<close> of the package,
  executed without another thread in between.  It returns the promise as it is when the
  call returns.  \<open>context.WithCancel\<close> on a nil context panics; no promise is returned
  then, which the flag of the runtime says.
\<close>

fun LaunchPromiseThread :: "'u \<Rightarrow> 'u closure world \<Rightarrow> 'v Promise \<times> 'u closure world" where
  "LaunchPromiseThread foo (s, rt) =
     (case GetContextSafe s of
        Inl err \<Rightarrow> (ProduceError err (NewPromise None), (s, rt))
      | Inr c \<Rightarrow>
          if Stopped s then (ProduceError ErrStopped (NewPromise None), (s, rt))
          else
            (case c of
               None \<Rightarrow> (NewPromise None, (s, panic rt))
             | Some c' \<Rightarrow>
                 let ((innerCtx, cancel'), rt1) = WithCancel c' rt;
                     promise = NewPromise (Some cancel');
                     (err, w2) = LaunchThreadSafe (Body_294 foo innerCtx cancel') (s, rt1)
                 in (case err of
                       Some e \<Rightarrow> (ProduceError e promise, w2)
                     | None \<Rightarrow> (promise, w2))))"

text \<open>
  The function literal at line 294, given what \<open>foo(innerCtx)\<close> returns: it resolves the
  promise and cancels the inner context.
\<close>

fun body_294 :: "error + 'v \<Rightarrow> token \<Rightarrow> 'v Promise \<times> 'f runtime \<Rightarrow> 'v Promise \<times> 'f runtime" where
  "body_294 r cancel' (promise, rt) =
     (let promise' = (case r of Inl err \<Rightarrow> ProduceError err promise | Inr val \<Rightarrow> Produce val promise)
      in (promise', cancel cancel' rt))"

subsection \<open>A started controller\<close>

text \<open>A controller started under a parent context that an outside source can cancel.\<close>

definition started_world :: "'f world" where
  "started_world = snd (Start [External 0] ''*arbnode.Node'' init_world)"

subsection \<open>What stays true along a schedule\<close>

text \<open>
  \<open>later w w'\<close>: what no statement of the package undoes.  A started controller stays
  started and keeps its contexts, cancel function and name; a stopped one stays stopped;
  the wait channel stays the same once made; cancelled sources stay cancelled, closed
  channels stay closed; threads are only added.
\<close>

definition later :: "'f world \<Rightarrow> 'f world \<Rightarrow> bool" where
  "later w w' =
     ((started (fst w) \<longrightarrow>
         started (fst w') \<and> ctx (fst w') = ctx (fst w) \<and> parentCtx (fst w') = parentCtx (fst w) \<and>
         stopFunc (fst w') = stopFunc (fst w) \<and> name (fst w') = name (fst w)) \<and>
      (stopped (fst w) \<longrightarrow> stopped (fst w')) \<and>
      (\<forall>ch. waitChan (fst w) = Some ch \<longrightarrow> waitChan (fst w') = Some ch) \<and>
      cancelled (snd w) \<subseteq> cancelled (snd w') \<and>
      closed (snd w) \<subseteq> closed (snd w') \<and>
      next_token (snd w) \<le> next_token (snd w') \<and>
      next_chan (snd w) \<le> next_chan (snd w') \<and>
      length (threads (snd w)) \<le> length (threads (snd w')))"

text \<open>The scope of the controller is cancelled; the drain signal has fired.\<close>

definition scope_cancelled :: "'f world \<Rightarrow> bool" where
  "scope_cancelled w = (case ctx (fst w) of None \<Rightarrow> False | Some c \<Rightarrow> ctx_Err (snd w) c)"

definition drain_fired :: "'f world \<Rightarrow> bool" where
  "drain_fired w = (case waitChan (fst w) of None \<Rightarrow> False | Some ch \<Rightarrow> ch \<in> closed (snd w))"

text \<open>
  What holds of a thread at each program counter: a call of \<open>stopAndWaitImpl\<close> past line
  122 runs on a started controller and holds the controller's wait channel, and has
  returned from line 143 or 146 only when that channel is closed; the watcher goroutine
  holds the controller's scope and is past line 159 only when the scope is cancelled.
\<close>

fun stop_ok :: "'f world \<Rightarrow> spc \<Rightarrow> bool" where
  "stop_ok w S121 = True"
| "stop_ok w S122 = True"
| "stop_ok w S130 = started (fst w)"
| "stop_ok w (S134 ch) = (waitChan (fst w) = Some ch)"
| "stop_ok w (S136 ch deadline) = (waitChan (fst w) = Some ch)"
| "stop_ok w (S145 ch) = (waitChan (fst w) = Some ch)"
| "stop_ok w R124 = True"
| "stop_ok w (R132 err) = False"
| "stop_ok w R143 = drain_fired w"
| "stop_ok w R146 = drain_fired w"

fun thread_ok :: "'f world \<Rightarrow> 'f thread \<Rightarrow> bool" where
  "thread_ok w (Watcher pc c ch) =
     (started (fst w) \<and> c = ctx (fst w) \<and> (pc \<noteq> W159 \<longrightarrow> scope_cancelled w))"
| "thread_ok w (Task pc foo c) = True"
| "thread_ok w (LaunchCall pc foo) = True"
| "thread_ok w (StopCall pc wt) = stop_ok w pc"

definition threads_ok :: "'f world \<Rightarrow> bool" where
  "threads_ok w = (\<forall>t \<in> set (threads (snd w)). thread_ok w t)"

definition world_ok :: "'f world \<Rightarrow> bool" where
  "world_ok w = (started (fst w) \<longrightarrow> ctx (fst w) \<noteq> None \<and> stopFunc (fst w) \<noteq> None)"

definition invariant :: "'f world \<Rightarrow> bool" where
  "invariant w = (world_ok w \<and> threads_ok w)"

subsection \<open>The drain signal in a schedule\<close>

text \<open>
  The watcher goroutine is past \<open>s.wg.Wait()\<close>.  A world is drained when the controller
  is started, its scope is cancelled and the counter is zero.  \<open>was_drained acts w0\<close>: some
  prefix of the schedule \<open>acts\<close>, run from \<open>w0\<close>, ends in a drained world.
\<close>

fun watcher_past :: "'f thread \<Rightarrow> bool" where
  "watcher_past (Watcher pc c ch) = (pc = W161 \<or> pc = W_exit)"
| "watcher_past (Task pc foo c) = False"
| "watcher_past (LaunchCall pc foo) = False"
| "watcher_past (StopCall pc wt) = False"

definition drained :: "'f world \<Rightarrow> bool" where
  "drained w = (started (fst w) \<and> scope_cancelled w \<and> wg (fst w) = 0)"

definition was_drained :: "'f action list \<Rightarrow> 'f world \<Rightarrow> bool" where
  "was_drained acts w0 =
     (\<exists>n \<in> {..length acts}. case run (take n acts) w0 of None \<Rightarrow> False | Some w \<Rightarrow> drained w)"

definition drain_due :: "'f world \<Rightarrow> bool" where
  "drain_due w = ((\<exists>t \<in> set (threads (snd w)). watcher_past t) \<or> closed (snd w) \<noteq> {})"

subsection \<open>Counting warnings\<close>

text \<open>
  A call of \<open>stopAndWaitImpl\<close> that has taken \<open>case <-timer.C\<close> at line 137 is at line 145
  or has returned from line 146.
\<close>

fun timed_out :: "'f thread \<Rightarrow> bool" where
  "timed_out (StopCall pc wt) = (case pc of S145 ch \<Rightarrow> True | R146 \<Rightarrow> True | _ \<Rightarrow> False)"
| "timed_out (Watcher pc c ch) = False"
| "timed_out (Task pc foo c) = False"
| "timed_out (LaunchCall pc foo) = False"

fun is_StopCall :: "'f thread \<Rightarrow> bool" where
  "is_StopCall (StopCall pc wt) = True"
| "is_StopCall (Watcher pc c ch) = False"
| "is_StopCall (Task pc foo c) = False"
| "is_StopCall (LaunchCall pc foo) = False"

fun is_StopAndWait :: "'f action \<Rightarrow> bool" where
  "is_StopAndWait (Call_StopAndWait wt) = True"
| "is_StopAndWait a = False"

subsection \<open>A call of \<open>LaunchThreadSafe\<close> that starts nothing\<close>

text \<open>
  The program counters of \<open>LaunchThreadSafe\<close> before \<open>s.wg.Add(1)\<close> at line 177, and its
  return of \<open>nil\<close>.
\<close>

fun launch_quiet :: "lpc \<Rightarrow> bool" where
  "launch_quiet L170 = True"
| "launch_quiet (L174 c) = True"
| "launch_quiet (L177 c) = False"
| "launch_quiet (L178 c) = False"
| "launch_quiet (L_ret r) = (r = None)"

section \<open>Properties\<close>

subsection \<open>\<open>Start\<close>\<close>

lemma Start_started:
  "started (fst w) \<Longrightarrow> Start c parent w = (Some ErrStartAfterStart, w)"
  by (cases w) simp

lemma Start_fresh:
  "\<not> started s \<Longrightarrow>
   Start c parent (s, rt) =
     (None,
      (s\<lparr>started := True, name := getParentName parent, parentCtx := Some c,
         ctx := Some (Derived (next_token rt) # c), stopFunc := Some (Derived (next_token rt))\<rparr>,
       (if stopped s then cancel (Derived (next_token rt)) (rt\<lparr>next_token := Suc (next_token rt)\<rparr>)
        else rt\<lparr>next_token := Suc (next_token rt)\<rparr>)))"
  by (simp add: WithCancel_def call_stopFunc_def Let_def)

declare Start.simps [simp del]

lemma Start_is_started: "started (fst (snd (Start c parent w)))"
  by (cases w, cases "started (fst w)") (simp_all add: Start_fresh Start_started)

text \<open>
  C4.  A second \<open>Start\<close> returns the error "start after start" and changes nothing: the
  world after it is the world the first \<open>Start\<close> left, with the fields \<open>started\<close>,
  \<open>stopped\<close>, \<open>ctx\<close>, \<open>parentCtx\<close>, \<open>stopFunc\<close> and \<open>name\<close> as the first \<open>Start\<close> set them.
\<close>

theorem Start_twice:
  assumes "Start c parent w = (r1, w1)"
  shows "Start c' parent' w1 = (Some ErrStartAfterStart, w1) \<and>
      (\<not> started (fst w) \<longrightarrow>
         r1 = None \<and> started (fst w1) \<and> stopped (fst w1) = stopped (fst w) \<and>
         ctx (fst w1) = Some (Derived (next_token (snd w)) # c) \<and>
         parentCtx (fst w1) = Some c \<and>
         stopFunc (fst w1) = Some (Derived (next_token (snd w))) \<and>
         name (fst w1) = getParentName parent)"
proof -
  have "started (fst w1)"
    using Start_is_started [of c parent w] assms by simp
  then have again: "Start c' parent' w1 = (Some ErrStartAfterStart, w1)"
    by (rule Start_started)
  have first: "\<not> started (fst w) \<longrightarrow>
         r1 = None \<and> started (fst w1) \<and> stopped (fst w1) = stopped (fst w) \<and>
         ctx (fst w1) = Some (Derived (next_token (snd w)) # c) \<and>
         parentCtx (fst w1) = Some c \<and>
         stopFunc (fst w1) = Some (Derived (next_token (snd w))) \<and>
         name (fst w1) = getParentName parent"
    using assms by (cases w) (auto simp add: Start_fresh)
  from again first show ?thesis by simp
qed

theorem Start_twice_witness:
  "Start [External 0] ''*arbnode.Node'' (init_world :: nat world) =
     (None,
      (\<lparr>started = True, stopped = False, ctx = Some [Derived 0, External 0],
        parentCtx = Some [External 0], stopFunc = Some (Derived 0), name = ''arbnode.Node'',
        waitChan = None, wg = 0\<rparr>,
       init_runtime\<lparr>next_token := 1\<rparr>)) \<and>
   Start [] ''other''
      (\<lparr>started = True, stopped = False, ctx = Some [Derived 0, External 0],
        parentCtx = Some [External 0], stopFunc = Some (Derived 0), name = ''arbnode.Node'',
        waitChan = None, wg = 0\<rparr>,
       (init_runtime\<lparr>next_token := 1\<rparr> :: nat runtime)) =
     (Some ErrStartAfterStart,
      (\<lparr>started = True, stopped = False, ctx = Some [Derived 0, External 0],
        parentCtx = Some [External 0], stopFunc = Some (Derived 0), name = ''arbnode.Node'',
        waitChan = None, wg = 0\<rparr>,
       init_runtime\<lparr>next_token := 1\<rparr>))"
proof -
  have first: "Start [External 0] ''*arbnode.Node'' (init_world :: nat world) =
     (None,
      (\<lparr>started = True, stopped = False, ctx = Some [Derived 0, External 0],
        parentCtx = Some [External 0], stopFunc = Some (Derived 0), name = ''arbnode.Node'',
        waitChan = None, wg = 0\<rparr>,
       init_runtime\<lparr>next_token := 1\<rparr>))"
    by (simp add: init_world_def init_runtime_def zero_StopWaiterSafe_def getParentName_def
        Start_fresh)
  from Start_twice [OF first, of "[]" "''other''"] first show ?thesis by simp
qed

subsection \<open>Evaluating the methods and schedules\<close>

lemma started_world_eq:
  "started_world =
     (\<lparr>started = True, stopped = False, ctx = Some [Derived 0, External 0],
        parentCtx = Some [External 0], stopFunc = Some (Derived 0), name = ''arbnode.Node'',
        waitChan = None, wg = 0\<rparr>,
      \<lparr>cancelled = {}, closed = {}, next_token = 1, next_chan = 0, threads = [],
        now = 0, logged = [], panicked = False\<rparr>)"
  by (simp add: started_world_def init_world_def init_runtime_def zero_StopWaiterSafe_def
      getParentName_def Start_fresh)

lemma StopOnly_started_world_eq:
  "StopOnly started_world =
     (\<lparr>started = True, stopped = True, ctx = Some [Derived 0, External 0],
        parentCtx = Some [External 0], stopFunc = Some (Derived 0), name = ''arbnode.Node'',
        waitChan = None, wg = 0\<rparr>,
      \<lparr>cancelled = {Derived 0}, closed = {}, next_token = 1, next_chan = 0, threads = [],
        now = 0, logged = [], panicked = False\<rparr>)"
  by (simp add: started_world_eq call_stopFunc_def cancel_def)

lemmas eval_defs =
  init_world_def init_runtime_def zero_StopWaiterSafe_def step_def exec_thread_def
  set_thread_def go_def Start_fresh Start_started getParentName_def GetContextSafe_def
  getContext_def Stopped_def Started_def call_stopFunc_def cancel_def make_chan_def
  close_chan_def ctx_Err_def wg_Done_def panic_def

subsection \<open>What every statement keeps\<close>

lemma later_refl: "later w w"
  by (simp add: later_def)

lemma later_trans: "later w w' \<Longrightarrow> later w' w'' \<Longrightarrow> later w w''"
  unfolding later_def by (intro conjI; (blast | simp | force))

lemma later_Start: "later w (snd (Start c parent w))"
  by (cases w, cases "started (fst w)")
    (auto simp add: later_def Start_started Start_fresh cancel_def)

lemma later_StopOnly: "later w (StopOnly w)"
  by (cases w) (auto simp add: later_def call_stopFunc_def cancel_def panic_def split: option.splits)

lemma later_GetWaitChannel: "later w (snd (GetWaitChannel w))"
  by (cases w)
    (auto simp add: later_def getContext_def make_chan_def go_def split: option.splits sum.splits)

lemma later_wg_Add: "later w (wg_Add d w)"
  by (cases w) (auto simp add: later_def panic_def)

lemma later_watcher_step: "watcher_step pc c ch w = Some (pc', w') \<Longrightarrow> later w w'"
  by (cases w; cases pc)
    (auto simp add: later_def panic_def close_chan_def split: option.splits if_splits)

lemma later_task_step: "task_step pc w = Some (pc', w') \<Longrightarrow> later w w'"
  by (cases pc) (auto simp add: later_refl wg_Done_def later_wg_Add)

lemma later_launch_step: "launch_step pc foo w = Some (pc', w') \<Longrightarrow> later w w'"
  by (cases w; cases pc)
    (auto simp add: later_refl later_wg_Add simp del: wg_Add.simps split: sum.splits if_splits,
     auto simp add: later_def go_def)

lemma later_stop_step: "stop_step pc wt tm w = Some (pc', w') \<Longrightarrow> later w w'"
proof (cases pc)
  case S121
  assume "stop_step pc wt tm w = Some (pc', w')"
  with S121 show ?thesis by (auto simp add: later_StopOnly)
next
  case S130
  assume "stop_step pc wt tm w = Some (pc', w')"
  with S130 later_GetWaitChannel [of w] show ?thesis
    by (auto split: prod.splits sum.splits)
next
  case (S136 ch deadline)
  assume "stop_step pc wt tm w = Some (pc', w')"
  with S136 show ?thesis
    by (cases w) (auto simp add: later_def split: if_splits)
qed (cases w; auto simp add: later_refl split: if_splits)+

lemma later_thread_step: "thread_step t tm w = Some (t', w') \<Longrightarrow> later w w'"
  by (cases t)
    (auto dest: later_watcher_step later_task_step later_launch_step later_stop_step)

lemma later_set_thread: "later w (set_thread i t w)"
  by (simp add: later_def set_thread_def)

lemma later_step: "step a w = Some w' \<Longrightarrow> later w w'"
proof (cases a)
  case (Step i)
  assume "step a w = Some w'"
  with Step show ?thesis
    by (auto simp add: step_def exec_thread_def split: if_splits
        intro: later_trans [OF later_thread_step later_set_thread])
next
  case (Step_timer i)
  assume "step a w = Some w'"
  with Step_timer show ?thesis
    by (auto simp add: step_def exec_thread_def split: if_splits
        intro: later_trans [OF later_thread_step later_set_thread])
qed (cases w; auto simp add: step_def later_Start later_StopOnly later_GetWaitChannel
      simp del: StopOnly.simps GetWaitChannel.simps split: if_splits; 
     auto simp add: later_def go_def cancel_def)+

lemma later_run: "run acts w = Some w' \<Longrightarrow> later w w'"
proof (induction acts arbitrary: w)
  case Nil
  then show ?case by (simp add: later_refl)
next
  case (Cons a acts)
  then show ?case
    by (auto split: option.splits intro: later_trans dest: later_step)
qed

lemma run_append:
  "run (as @ bs) w = (case run as w of None \<Rightarrow> None | Some w' \<Rightarrow> run bs w')"
  by (induction as arbitrary: w) (auto split: option.splits)

lemma run_snoc:
  "run (acts @ [a]) w0 = Some w' \<longleftrightarrow> (\<exists>w. run acts w0 = Some w \<and> step a w = Some w')"
  by (auto simp add: run_append split: option.splits)

lemma ctx_Err_mono: "cancelled rt \<subseteq> cancelled rt' \<Longrightarrow> ctx_Err rt c \<Longrightarrow> ctx_Err rt' c"
  by (auto simp add: ctx_Err_def)

lemma scope_cancelled_later:
  "later w w' \<Longrightarrow> started (fst w) \<Longrightarrow> scope_cancelled w \<Longrightarrow> scope_cancelled w'"
  by (auto simp add: later_def scope_cancelled_def split: option.splits intro: ctx_Err_mono)

lemma drain_fired_later: "later w w' \<Longrightarrow> drain_fired w \<Longrightarrow> drain_fired w'"
  by (auto simp add: later_def drain_fired_def split: option.splits)

lemma stop_ok_later: "later w w' \<Longrightarrow> stop_ok w pc \<Longrightarrow> stop_ok w' pc"
  by (cases pc) (auto simp add: drain_fired_later, auto simp add: later_def)

lemma thread_ok_later: "later w w' \<Longrightarrow> thread_ok w t \<Longrightarrow> thread_ok w' t"
  by (cases t) (auto simp add: stop_ok_later scope_cancelled_later, auto simp add: later_def)

subsection \<open>The threads of a schedule\<close>

text \<open>What a statement does to the list of threads: nothing, or one goroutine more.\<close>

lemma GetWaitChannel_threads:
  "threads (snd (snd (GetWaitChannel w))) = threads (snd w) \<or>
   (started (fst w) \<and>
    threads (snd (snd (GetWaitChannel w))) =
      threads (snd w) @ [Watcher W159 (ctx (fst w)) (next_chan (snd w))])"
  by (cases w) (auto simp add: getContext_def make_chan_def go_def split: option.splits)

lemma thread_step_threads:
  assumes "thread_step t tm w = Some (t', w')"
  shows "threads (snd w') = threads (snd w) \<or>
     (started (fst w) \<and> threads (snd w') = threads (snd w) @ [Watcher W159 (ctx (fst w)) (next_chan (snd w))]) \<or>
     (\<exists>foo c. threads (snd w') = threads (snd w) @ [Task T179 foo c])"
proof (cases t)
  case (Watcher pc c ch)
  with assms show ?thesis
    by (cases w; cases pc) (auto simp add: panic_def close_chan_def split: option.splits if_splits)
next
  case (Task pc foo c)
  with assms show ?thesis
    by (cases w; cases pc) (auto simp add: panic_def wg_Done_def split: if_splits)
next
  case (LaunchCall pc foo)
  with assms show ?thesis
    by (cases w; cases pc) (auto simp add: panic_def go_def split: if_splits sum.splits)
next
  case (StopCall pc wt)
  show ?thesis
  proof (cases pc)
    case S130
    with StopCall assms GetWaitChannel_threads [of w] show ?thesis
      by (auto split: prod.splits sum.splits)
  qed (use StopCall assms in \<open>cases w; auto simp add: call_stopFunc_def cancel_def panic_def
            split: if_splits option.splits\<close>)+
qed

lemma exec_thread_Some:
  assumes "exec_thread i tm w = Some w'"
  obtains t' wm where "i < length (threads (snd w))"
    and "thread_step (threads (snd w) ! i) tm w = Some (t', wm)"
    and "w' = set_thread i t' wm"
  using assms by (auto simp add: exec_thread_def split: if_splits)

lemma set_thread_simps [simp]:
  "fst (set_thread i t w) = fst w"
  "cancelled (snd (set_thread i t w)) = cancelled (snd w)"
  "closed (snd (set_thread i t w)) = closed (snd w)"
  "threads (snd (set_thread i t w)) = (threads (snd w))[i := t]"
  "logged (snd (set_thread i t w)) = logged (snd w)"
  "now (snd (set_thread i t w)) = now (snd w)"
  "panicked (snd (set_thread i t w)) = panicked (snd w)"
  by (simp_all add: set_thread_def)

lemma ctx_Err_set_thread [simp]: "ctx_Err (snd (set_thread i t w)) c = ctx_Err (snd w) c"
  by (simp add: ctx_Err_def)

lemma scope_cancelled_set_thread [simp]: "scope_cancelled (set_thread i t w) = scope_cancelled w"
  by (simp add: scope_cancelled_def split: option.splits)

lemma drain_fired_set_thread [simp]: "drain_fired (set_thread i t w) = drain_fired w"
  by (simp add: drain_fired_def split: option.splits)

lemma stop_ok_set_thread [simp]: "stop_ok (set_thread i t w) pc = stop_ok w pc"
  by (cases pc) simp_all

lemma thread_ok_set_thread [simp]: "thread_ok (set_thread i t w) u = thread_ok w u"
  by (cases u) simp_all

subsection \<open>The invariant\<close>

lemma inv_init: "invariant init_world"
  by (simp add: invariant_def world_ok_def threads_ok_def init_world_def init_runtime_def
      zero_StopWaiterSafe_def)

lemma world_ok_later: "later w w' \<Longrightarrow> started (fst w) \<Longrightarrow> world_ok w \<Longrightarrow> world_ok w'"
  by (auto simp add: later_def world_ok_def)

lemma world_ok_Start: "world_ok w \<Longrightarrow> world_ok (snd (Start c parent w))"
  by (cases w, cases "started (fst w)") (auto simp add: Start_started Start_fresh world_ok_def)

lemma started_StopOnly [simp]: "started (fst (StopOnly w)) = started (fst w)"
  by (cases w) simp

lemma ctx_StopOnly [simp]: "ctx (fst (StopOnly w)) = ctx (fst w)"
  by (cases w) simp

lemma stopFunc_StopOnly [simp]: "stopFunc (fst (StopOnly w)) = stopFunc (fst w)"
  by (cases w) simp

lemma started_GetWaitChannel [simp]: "started (fst (snd (GetWaitChannel w))) = started (fst w)"
  by (cases w) (auto simp add: getContext_def make_chan_def split: option.splits)

lemma ctx_GetWaitChannel [simp]: "ctx (fst (snd (GetWaitChannel w))) = ctx (fst w)"
  by (cases w) (auto simp add: getContext_def make_chan_def split: option.splits)

lemma stopFunc_GetWaitChannel [simp]: "stopFunc (fst (snd (GetWaitChannel w))) = stopFunc (fst w)"
  by (cases w) (auto simp add: getContext_def make_chan_def split: option.splits)

lemma GetWaitChannel_started:
  "started (fst w) \<Longrightarrow>
   \<exists>ch. fst (GetWaitChannel w) = Inr ch \<and> waitChan (fst (snd (GetWaitChannel w))) = Some ch"
  by (cases w) (auto simp add: getContext_def make_chan_def split: option.splits)

lemma fields_wg_Add [simp]:
  "started (fst (wg_Add d w)) = started (fst w)"
  "ctx (fst (wg_Add d w)) = ctx (fst w)"
  "stopFunc (fst (wg_Add d w)) = stopFunc (fst w)"
  by (cases w; simp)+

lemma thread_step_fields:
  assumes "thread_step t tm w = Some (t', w')"
  shows "started (fst w') = started (fst w) \<and> ctx (fst w') = ctx (fst w) \<and>
         stopFunc (fst w') = stopFunc (fst w)"
proof (cases t)
  case (Watcher pc c ch)
  with assms show ?thesis
    by (cases w; cases pc) (auto split: option.splits if_splits)
next
  case (Task pc foo c)
  with assms show ?thesis
    by (cases pc) (auto simp add: wg_Done_def)
next
  case (LaunchCall pc foo)
  with assms show ?thesis
    by (cases w; cases pc) (auto split: if_splits sum.splits)
next
  case (StopCall pc wt)
  with assms show ?thesis
    by (cases w; cases pc)
      (auto simp del: StopOnly.simps GetWaitChannel.simps split: if_splits sum.splits prod.splits,
       (metis started_GetWaitChannel ctx_GetWaitChannel stopFunc_GetWaitChannel fst_conv snd_conv)+)
qed

lemma world_ok_thread_step:
  "thread_step t tm w = Some (t', w') \<Longrightarrow> world_ok w \<Longrightarrow> world_ok w'"
  by (drule thread_step_fields) (simp add: world_ok_def)

lemma world_ok_step: "step a w = Some w' \<Longrightarrow> world_ok w \<Longrightarrow> world_ok w'"
proof (cases a)
  case (Call_Start c parent)
  assume "step a w = Some w'" "world_ok w"
  with Call_Start show ?thesis
    by (auto simp add: step_def world_ok_Start split: if_splits)
next
  case (Step i)
  assume "step a w = Some w'" "world_ok w"
  with Step show ?thesis
    by (auto simp add: step_def exec_thread_def set_thread_def world_ok_def
        split: if_splits dest!: thread_step_fields)
next
  case (Step_timer i)
  assume "step a w = Some w'" "world_ok w"
  with Step_timer show ?thesis
    by (auto simp add: step_def exec_thread_def set_thread_def world_ok_def
        split: if_splits dest!: thread_step_fields)
qed (cases w; auto simp add: step_def world_ok_def simp del: StopOnly.simps GetWaitChannel.simps
       split: if_splits)+

lemma stop_step_ok:
  assumes "stop_step pc wt tm w = Some (pc', w')" and "stop_ok w pc"
  shows "stop_ok w' pc'"
proof (cases pc)
  case S130
  with assms have st: "started (fst w)" by simp
  from GetWaitChannel_started [OF st] S130 assms show ?thesis
    by (auto split: prod.splits sum.splits)
qed (use assms in \<open>cases w; auto simp add: Started_def drain_fired_def split: if_splits\<close>)+

lemma watcher_step_ok:
  assumes "watcher_step pc c ch w = Some (pc', w')" and "thread_ok w (Watcher pc c ch)"
    and "world_ok w"
  shows "thread_ok w' (Watcher pc' c ch)"
  using assms
  by (cases w; cases pc)
    (auto simp add: world_ok_def scope_cancelled_def close_chan_def panic_def ctx_Err_def
      split: option.splits if_splits)

lemma thread_step_ok:
  assumes "thread_step t tm w = Some (t', w')" and "thread_ok w t" and "world_ok w"
  shows "thread_ok w' t'"
proof (cases t)
  case (Watcher pc c ch)
  with assms show ?thesis by (auto dest: watcher_step_ok)
next
  case (StopCall pc wt)
  with assms show ?thesis by (auto dest: stop_step_ok)
qed (use assms in auto)

lemma threads_ok_thread_step:
  assumes ts: "thread_step t tm w = Some (t', w')" and ok: "threads_ok w" and wok: "world_ok w"
  shows "threads_ok w'"
proof -
  have lt: "later w w'" using ts by (rule later_thread_step)
  have old: "\<forall>u \<in> set (threads (snd w)). thread_ok w' u"
    using ok lt by (auto simp add: threads_ok_def intro: thread_ok_later)
  have f: "started (fst w') = started (fst w)" "ctx (fst w') = ctx (fst w)"
    using thread_step_fields [OF ts] by simp_all
  from thread_step_threads [OF ts] show ?thesis
  proof (elim disjE exE conjE)
    assume "threads (snd w') = threads (snd w)"
    with old show ?thesis by (simp add: threads_ok_def)
  next
    assume "started (fst w)"
      and "threads (snd w') = threads (snd w) @ [Watcher W159 (ctx (fst w)) (next_chan (snd w))]"
    with old f show ?thesis by (simp add: threads_ok_def)
  next
    fix foo c assume "threads (snd w') = threads (snd w) @ [Task T179 foo c]"
    with old show ?thesis by (simp add: threads_ok_def)
  qed
qed

lemma threads_ok_set_thread:
  assumes "threads_ok w" and "thread_ok w t"
  shows "threads_ok (set_thread i t w)"
proof -
  have "set ((threads (snd w))[i := t]) \<subseteq> insert t (set (threads (snd w)))"
    by (rule set_update_subset_insert)
  with assms show ?thesis
    unfolding threads_ok_def by auto
qed

lemma threads_ok_append:
  "later w w' \<Longrightarrow> threads_ok w \<Longrightarrow> threads (snd w') = threads (snd w) @ new \<Longrightarrow>
   \<forall>t \<in> set new. thread_ok w' t \<Longrightarrow> threads_ok w'"
  by (auto simp add: threads_ok_def intro: thread_ok_later)

lemma threads_ok_exec_thread:
  assumes "exec_thread i tm w = Some w'" and "invariant w"
  shows "threads_ok w'"
proof -
  from assms(1) obtain t' wm where i: "i < length (threads (snd w))"
    and ts: "thread_step (threads (snd w) ! i) tm w = Some (t', wm)"
    and w': "w' = set_thread i t' wm"
    by (auto simp add: exec_thread_def split: if_splits)
  from assms(2) have wok: "world_ok w" and tok: "threads_ok w"
    by (simp_all add: invariant_def)
  from tok i have "thread_ok w (threads (snd w) ! i)"
    by (simp add: threads_ok_def)
  with ts wok have "thread_ok wm t'" by (blast intro: thread_step_ok)
  moreover from ts tok wok have "threads_ok wm" by (rule threads_ok_thread_step)
  ultimately show ?thesis
    unfolding w' by (intro threads_ok_set_thread)
qed

lemma threads_ok_step:
  assumes st: "step a w = Some w'" and i: "invariant w"
  shows "threads_ok w'"
proof -
  have lt: "later w w'" using st by (rule later_step)
  from i have tok: "threads_ok w" by (simp add: invariant_def)
  show ?thesis
  proof (cases a)
    case (Call_Start c parent)
    with st have "threads (snd w') = threads (snd w) @ []"
      by (cases w, cases "started (fst w)")
        (auto simp add: step_def Start_started Start_fresh cancel_def split: if_splits)
    with lt tok show ?thesis by (rule threads_ok_append) simp
  next
    case Call_StopOnly
    with st have "threads (snd w') = threads (snd w) @ []"
      by (cases w)
        (auto simp add: step_def call_stopFunc_def cancel_def panic_def
          split: if_splits option.splits)
    with lt tok show ?thesis by (rule threads_ok_append) simp
  next
    case Call_GetWaitChannel
    with st have w': "w' = snd (GetWaitChannel w)"
      by (auto simp add: step_def split: if_splits)
    from GetWaitChannel_threads [of w] show ?thesis
    proof
      assume "threads (snd (snd (GetWaitChannel w))) = threads (snd w)"
      then have "threads (snd w') = threads (snd w) @ []" using w' by simp
      with lt tok show ?thesis by (rule threads_ok_append) simp
    next
      assume a: "started (fst w) \<and>
        threads (snd (snd (GetWaitChannel w))) =
          threads (snd w) @ [Watcher W159 (ctx (fst w)) (next_chan (snd w))]"
      then have "threads (snd w') = threads (snd w) @ [Watcher W159 (ctx (fst w)) (next_chan (snd w))]"
        using w' by simp
      with lt tok show ?thesis
        by (rule threads_ok_append) (use a w' in simp)
    qed
  next
    case (Call_StopAndWait wt)
    with st have "threads (snd w') = threads (snd w) @ [StopCall S121 wt]"
      by (cases w) (auto simp add: step_def go_def split: if_splits)
    with lt tok show ?thesis by (rule threads_ok_append) simp
  next
    case (Call_LaunchThreadSafe foo)
    with st have "threads (snd w') = threads (snd w) @ [LaunchCall L170 foo]"
      by (cases w) (auto simp add: step_def go_def split: if_splits)
    with lt tok show ?thesis by (rule threads_ok_append) simp
  next
    case (Cancel_external n)
    with st have "threads (snd w') = threads (snd w) @ []"
      by (cases w) (auto simp add: step_def cancel_def split: if_splits)
    with lt tok show ?thesis by (rule threads_ok_append) simp
  next
    case (Tick d)
    with st have "threads (snd w') = threads (snd w) @ []"
      by (cases w) (auto simp add: step_def split: if_splits)
    with lt tok show ?thesis by (rule threads_ok_append) simp
  next
    case (Step j)
    with st have "exec_thread j False w = Some w'"
      by (auto simp add: step_def split: if_splits)
    then show ?thesis using i by (rule threads_ok_exec_thread)
  next
    case (Step_timer j)
    with st have "exec_thread j True w = Some w'"
      by (auto simp add: step_def split: if_splits)
    then show ?thesis using i by (rule threads_ok_exec_thread)
  qed
qed

lemma inv_step: "step a w = Some w' \<Longrightarrow> invariant w \<Longrightarrow> invariant w'"
  by (simp add: invariant_def world_ok_step threads_ok_step)

lemma inv_run: "run acts w = Some w' \<Longrightarrow> invariant w \<Longrightarrow> invariant w'"
  by (induction acts arbitrary: w) (auto split: option.splits intro: inv_step)

lemma step_cases:
  assumes "step a w = Some w'"
  obtains (thread) i tm t' wm where "a = Step i \<or> a = Step_timer i"
      and "i < length (threads (snd w))"
      and "thread_step (threads (snd w) ! i) tm w = Some (t', wm)"
      and "w' = set_thread i t' wm"
    | (call) new where "\<forall>i. a \<noteq> Step i \<and> a \<noteq> Step_timer i"
      and "threads (snd w') = threads (snd w) @ new"
      and "\<forall>t \<in> set new. \<not> watcher_past t"
      and "closed (snd w') = closed (snd w)"
proof (cases a)
  case (Step i)
  with assms have "exec_thread i False w = Some w'"
    by (auto simp add: step_def split: if_splits)
  then show ?thesis using Step by (auto elim!: exec_thread_Some intro: thread)
next
  case (Step_timer i)
  with assms have "exec_thread i True w = Some w'"
    by (auto simp add: step_def split: if_splits)
  then show ?thesis using Step_timer by (auto elim!: exec_thread_Some intro: thread)
next
  case (Call_Start c parent)
  with assms have "threads (snd w') = threads (snd w) @ []" "closed (snd w') = closed (snd w)"
    by (cases w, cases "started (fst w)";
        auto simp add: step_def Start_started Start_fresh cancel_def split: if_splits)+
  with Call_Start show ?thesis by (intro call [of "[]"]) auto
next
  case Call_StopOnly
  with assms have "threads (snd w') = threads (snd w) @ []" "closed (snd w') = closed (snd w)"
    by (cases w; auto simp add: step_def call_stopFunc_def cancel_def panic_def
          split: if_splits option.splits)+
  with Call_StopOnly show ?thesis by (intro call [of "[]"]) auto
next
  case Call_GetWaitChannel
  with assms have w': "w' = snd (GetWaitChannel w)"
    by (auto simp add: step_def split: if_splits)
  have c: "closed (snd w') = closed (snd w)"
    unfolding w' by (cases w) (auto simp add: getContext_def make_chan_def go_def split: option.splits)
  from GetWaitChannel_threads [of w] show ?thesis
  proof
    assume "threads (snd (snd (GetWaitChannel w))) = threads (snd w)"
    with c w' Call_GetWaitChannel show ?thesis by (intro call [of "[]"]) auto
  next
    assume "started (fst w) \<and>
        threads (snd (snd (GetWaitChannel w))) =
          threads (snd w) @ [Watcher W159 (ctx (fst w)) (next_chan (snd w))]"
    with c w' Call_GetWaitChannel show ?thesis
      by (intro call [of "[Watcher W159 (ctx (fst w)) (next_chan (snd w))]"]) auto
  qed
next
  case (Call_StopAndWait wt)
  with assms have "threads (snd w') = threads (snd w) @ [StopCall S121 wt]"
    "closed (snd w') = closed (snd w)"
    by (cases w; auto simp add: step_def go_def split: if_splits)+
  with Call_StopAndWait show ?thesis by (intro call [of "[StopCall S121 wt]"]) auto
next
  case (Call_LaunchThreadSafe foo)
  with assms have "threads (snd w') = threads (snd w) @ [LaunchCall L170 foo]"
    "closed (snd w') = closed (snd w)"
    by (cases w; auto simp add: step_def go_def split: if_splits)+
  with Call_LaunchThreadSafe show ?thesis by (intro call [of "[LaunchCall L170 foo]"]) auto
next
  case (Cancel_external n)
  with assms have "threads (snd w') = threads (snd w) @ []" "closed (snd w') = closed (snd w)"
    by (cases w; auto simp add: step_def cancel_def split: if_splits)+
  with Cancel_external show ?thesis by (intro call [of "[]"]) auto
next
  case (Tick d)
  with assms have "threads (snd w') = threads (snd w) @ []" "closed (snd w') = closed (snd w)"
    by (cases w; auto simp add: step_def split: if_splits)+
  with Tick show ?thesis by (intro call [of "[]"]) auto
qed

lemma thread_step_prefix:
  assumes "thread_step t tm w = Some (t', wm)"
  obtains new where "threads (snd wm) = threads (snd w) @ new" and "\<forall>u \<in> set new. \<not> watcher_past u"
proof -
  from thread_step_threads [OF assms] show ?thesis
  proof (elim disjE exE conjE)
    assume "threads (snd wm) = threads (snd w)"
    then show ?thesis by (intro that [of "[]"]) auto
  next
    assume "threads (snd wm) = threads (snd w) @ [Watcher W159 (ctx (fst w)) (next_chan (snd w))]"
    then show ?thesis by (intro that [of "[Watcher W159 (ctx (fst w)) (next_chan (snd w))]"]) auto
  next
    fix foo c assume "threads (snd wm) = threads (snd w) @ [Task T179 foo c]"
    then show ?thesis by (intro that [of "[Task T179 foo c]"]) auto
  qed
qed

subsection \<open>\<open>LaunchThreadSafe\<close>\<close>

lemma LaunchThreadSafe_not_started:
  "\<not> started s \<Longrightarrow> LaunchThreadSafe foo (s, rt) = (Some ErrNotStarted, (s, rt))"
  by (simp add: GetContextSafe_def getContext_def)

lemma LaunchThreadSafe_stopped:
  "started s \<Longrightarrow> stopped s \<Longrightarrow> LaunchThreadSafe foo (s, rt) = (None, (s, rt))"
  by (simp add: GetContextSafe_def getContext_def Stopped_def)

lemma LaunchThreadSafe_launches:
  "started s \<Longrightarrow> \<not> stopped s \<Longrightarrow> 0 \<le> wg s \<Longrightarrow>
   LaunchThreadSafe foo (s, rt) =
     (None, (s\<lparr>wg := wg s + 1\<rparr>, rt\<lparr>threads := threads rt @ [Task T179 foo (ctx s)]\<rparr>))"
  by (simp add: GetContextSafe_def getContext_def Stopped_def go_def)

lemma task_returns: "thread_step (Task T179 foo c) tm w = Some (Task T180 foo c, w)"
  by simp

lemma task_Done:
  "0 < wg s \<Longrightarrow>
   thread_step (Task T180 foo c) tm (s, rt) = Some (Task T_exit foo c, (s\<lparr>wg := wg s - 1\<rparr>, rt))"
  by (simp add: wg_Done_def)

text \<open>
  The four statements of \<open>LaunchThreadSafe\<close>, run as a thread with nothing in between,
  do what the function \<open>LaunchThreadSafe\<close> does.
\<close>

lemma LaunchThreadSafe_uninterrupted:
  assumes "\<not> panicked rt"
  shows "\<not> started s \<Longrightarrow>
           run [Call_LaunchThreadSafe foo, Step (length (threads rt))] (s, rt) =
             Some (s, rt\<lparr>threads := threads rt @ [LaunchCall (L_ret (Some ErrNotStarted)) foo]\<rparr>)"
    and "started s \<Longrightarrow> stopped s \<Longrightarrow>
           run [Call_LaunchThreadSafe foo, Step (length (threads rt)), Step (length (threads rt))]
               (s, rt) =
             Some (s, rt\<lparr>threads := threads rt @ [LaunchCall (L_ret None) foo]\<rparr>)"
    and "started s \<Longrightarrow> \<not> stopped s \<Longrightarrow> 0 \<le> wg s \<Longrightarrow>
           run [Call_LaunchThreadSafe foo, Step (length (threads rt)), Step (length (threads rt)),
                Step (length (threads rt)), Step (length (threads rt))] (s, rt) =
             Some (s\<lparr>wg := wg s + 1\<rparr>,
                   rt\<lparr>threads := threads rt @
                        [LaunchCall (L_ret None) foo, Task T179 foo (ctx s)]\<rparr>)"
  using assms
  by (simp_all add: step_def go_def exec_thread_def set_thread_def nth_append
      GetContextSafe_def getContext_def Stopped_def)

lemma launch_step_stopped:
  assumes "launch_step pc foo w = Some (pc', w')" and "started (fst w)" and "stopped (fst w)"
    and "launch_quiet pc"
  shows "launch_quiet pc' \<and> w' = w"
  using assms
  by (cases w; cases pc)
    (auto simp add: GetContextSafe_def getContext_def Stopped_def split: if_splits sum.splits)

lemma launch_call_step:
  assumes st: "step a w = Some w'" and s: "started (fst w)" "stopped (fst w)"
    and i: "i < length (threads (snd w))"
    and t: "threads (snd w) ! i = LaunchCall pc foo" and pc: "launch_quiet pc"
  shows "started (fst w') \<and> stopped (fst w') \<and> i < length (threads (snd w')) \<and>
         (\<exists>pc'. threads (snd w') ! i = LaunchCall pc' foo \<and> launch_quiet pc')"
proof -
  from st have "later w w'" by (rule later_step)
  with s i have s': "started (fst w')" "stopped (fst w')" and i': "i < length (threads (snd w'))"
    by (auto simp add: later_def)
  have "\<exists>pc'. threads (snd w') ! i = LaunchCall pc' foo \<and> launch_quiet pc'"
    using st
  proof (cases rule: step_cases)
    case (call new)
    with i t pc show ?thesis by (simp add: nth_append)
  next
    case (thread j tm t' wm)
    from thread(3) obtain new where new: "threads (snd wm) = threads (snd w) @ new"
      by (rule thread_step_prefix)
    show ?thesis
    proof (cases "j = i")
      case True
      with thread(3) t obtain pc' where "t' = LaunchCall pc' foo"
        and "launch_step pc foo w = Some (pc', wm)"
        by auto
      with launch_step_stopped [OF _ s pc] have "t' = LaunchCall pc' foo \<and> launch_quiet pc'"
        by blast
      with True thread(4) new i show ?thesis by simp
    next
      case False
      with thread(4) new i t pc show ?thesis by (simp add: nth_append)
    qed
  qed
  with s' i' show ?thesis by simp
qed

lemma launch_call_run:
  assumes "run acts w = Some w'" and "started (fst w)" and "stopped (fst w)"
    and "i < length (threads (snd w))"
    and "threads (snd w) ! i = LaunchCall pc foo" and "launch_quiet pc"
  shows "\<exists>pc'. threads (snd w') ! i = LaunchCall pc' foo \<and> launch_quiet pc'"
  using assms
proof (induction acts arbitrary: w pc)
  case Nil
  then show ?case by simp
next
  case (Cons a acts)
  from Cons.prems(1) obtain w1 where st: "step a w = Some w1" and r: "run acts w1 = Some w'"
    by (auto split: option.splits)
  from launch_call_step [OF st Cons.prems(2-6)] obtain pc1
    where "started (fst w1)" "stopped (fst w1)" "i < length (threads (snd w1))"
      "threads (snd w1) ! i = LaunchCall pc1 foo" "launch_quiet pc1"
    by blast
  with r show ?case by (rule Cons.IH)
qed

text \<open>
  C3.  \<open>LaunchThreadSafe\<close> on a controller that is not started returns "not started" and
  changes nothing.  On a started and stopped controller it returns no error and changes
  nothing: no goroutine is started, so the function is not run; and under every schedule
  a call made there stays at line 170 or 174 or has returned nil, never reaching
  \<open>s.wg.Add(1)\<close> and the \<open>go\<close> statement.  On a started controller that is not stopped it
  adds one to the counter and starts the goroutine that runs the function on the
  controller's \<open>ctx\<close>; when the function returns, the goroutine takes one from the counter
  and ends.
\<close>

theorem LaunchThreadSafe_cases:
  "(\<not> started s \<longrightarrow> LaunchThreadSafe foo (s, rt) = (Some ErrNotStarted, (s, rt))) \<and>
   (started s \<and> stopped s \<longrightarrow>
      LaunchThreadSafe foo (s, rt) = (None, (s, rt)) \<and>
      (\<forall>acts w'. run (Call_LaunchThreadSafe foo # acts) (s, rt) = Some w' \<longrightarrow>
         (\<exists>pc. threads (snd w') ! length (threads rt) = LaunchCall pc foo \<and> launch_quiet pc))) \<and>
   (started s \<and> \<not> stopped s \<and> 0 \<le> wg s \<longrightarrow>
      LaunchThreadSafe foo (s, rt) =
        (None, (s\<lparr>wg := wg s + 1\<rparr>, rt\<lparr>threads := threads rt @ [Task T179 foo (ctx s)]\<rparr>))) \<and>
   thread_step (Task T179 foo c) tm (s, rt) = Some (Task T180 foo c, (s, rt)) \<and>
   (0 < wg s \<longrightarrow>
      thread_step (Task T180 foo c) tm (s, rt) =
        Some (Task T_exit foo c, (s\<lparr>wg := wg s - 1\<rparr>, rt))) \<and>
   thread_step (Task T_exit foo c) tm (s, rt) = None"
proof -
  have quiet: "\<exists>pc. threads (snd w') ! length (threads rt) = LaunchCall pc foo \<and> launch_quiet pc"
    if s: "started s" "stopped s"
      and r: "run (Call_LaunchThreadSafe foo # acts) (s, rt) = Some w'" for acts w'
  proof -
    from r have r': "run acts (s, go (LaunchCall L170 foo) rt) = Some w'"
      by (auto simp add: step_def split: if_splits option.splits)
    show ?thesis
      by (rule launch_call_run [OF r', of _ L170]) (use s in \<open>simp_all add: go_def\<close>)
  qed
  show ?thesis
    using LaunchThreadSafe_not_started [of s foo rt] LaunchThreadSafe_stopped [of s foo rt]
      LaunchThreadSafe_launches [of s foo rt] task_Done [of s foo c tm rt] quiet
    by (simp del: run.simps)
qed

theorem LaunchThreadSafe_cases_witness:
  "LaunchThreadSafe (0::nat) init_world = (Some ErrNotStarted, init_world) \<and>
   LaunchThreadSafe (0::nat) (StopOnly started_world) = (None, StopOnly started_world) \<and>
   run [Call_LaunchThreadSafe (0::nat), Step 0, Call_StopAndWait 5, Step 0, Step 1]
       (StopOnly started_world) =
     Some (\<lparr>started = True, stopped = True, ctx = Some [Derived 0, External 0],
         parentCtx = Some [External 0], stopFunc = Some (Derived 0), name = ''arbnode.Node'',
         waitChan = None, wg = 0\<rparr>,
       \<lparr>cancelled = {Derived 0}, closed = {}, next_token = 1, next_chan = 0,
         threads = [LaunchCall (L_ret None) 0, StopCall S122 5],
         now = 0, logged = [], panicked = False\<rparr>) \<and>
   LaunchThreadSafe (0::nat) started_world =
     (None,
      (\<lparr>started = True, stopped = False, ctx = Some [Derived 0, External 0],
         parentCtx = Some [External 0], stopFunc = Some (Derived 0), name = ''arbnode.Node'',
         waitChan = None, wg = 1\<rparr>,
       \<lparr>cancelled = {}, closed = {}, next_token = 1, next_chan = 0,
         threads = [Task T179 0 (Some [Derived 0, External 0])],
         now = 0, logged = [], panicked = False\<rparr>)) \<and>
   thread_step (Task T180 (0::nat) (Some [Derived 0, External 0])) False
      (snd (LaunchThreadSafe (0::nat) started_world)) =
     Some (Task T_exit 0 (Some [Derived 0, External 0]),
      (\<lparr>started = True, stopped = False, ctx = Some [Derived 0, External 0],
         parentCtx = Some [External 0], stopFunc = Some (Derived 0), name = ''arbnode.Node'',
         waitChan = None, wg = 0\<rparr>,
       \<lparr>cancelled = {}, closed = {}, next_token = 1, next_chan = 0,
         threads = [Task T179 0 (Some [Derived 0, External 0])],
         now = 0, logged = [], panicked = False\<rparr>))"
proof -
  note a = LaunchThreadSafe_cases [of zero_StopWaiterSafe "0::nat" init_runtime None False]
  note b = LaunchThreadSafe_cases [of "fst (StopOnly started_world)" "0::nat"
      "snd (StopOnly started_world)" None False]
  note c = LaunchThreadSafe_cases [of "fst started_world" "0::nat" "snd started_world" None False]
  note d = LaunchThreadSafe_cases [of "fst (snd (LaunchThreadSafe (0::nat) started_world))" "0::nat"
      "snd (snd (LaunchThreadSafe (0::nat) started_world))" "Some [Derived 0, External 0]" False]
  have 1: "LaunchThreadSafe (0::nat) init_world = (Some ErrNotStarted, init_world)"
    using a by (simp add: init_world_def zero_StopWaiterSafe_def del: LaunchThreadSafe.simps run.simps)
  have 2: "LaunchThreadSafe (0::nat) (StopOnly started_world) = (None, StopOnly started_world)"
    using b by (simp add: StopOnly_started_world_eq del: LaunchThreadSafe.simps run.simps)
  have r: "run [Call_LaunchThreadSafe (0::nat), Step 0, Call_StopAndWait 5, Step 0, Step 1]
       (StopOnly started_world) =
     Some (\<lparr>started = True, stopped = True, ctx = Some [Derived 0, External 0],
         parentCtx = Some [External 0], stopFunc = Some (Derived 0), name = ''arbnode.Node'',
         waitChan = None, wg = 0\<rparr>,
       \<lparr>cancelled = {Derived 0}, closed = {}, next_token = 1, next_chan = 0,
         threads = [LaunchCall (L_ret None) 0, StopCall S122 5],
         now = 0, logged = [], panicked = False\<rparr>)"
    unfolding StopOnly_started_world_eq by (simp add: eval_defs)
  have 3: "LaunchThreadSafe (0::nat) started_world =
     (None,
      (\<lparr>started = True, stopped = False, ctx = Some [Derived 0, External 0],
         parentCtx = Some [External 0], stopFunc = Some (Derived 0), name = ''arbnode.Node'',
         waitChan = None, wg = 1\<rparr>,
       \<lparr>cancelled = {}, closed = {}, next_token = 1, next_chan = 0,
         threads = [Task T179 0 (Some [Derived 0, External 0])],
         now = 0, logged = [], panicked = False\<rparr>))"
    using c by (simp add: started_world_eq del: LaunchThreadSafe.simps run.simps)
  have 4: "thread_step (Task T180 (0::nat) (Some [Derived 0, External 0])) False
      (snd (LaunchThreadSafe (0::nat) started_world)) =
     Some (Task T_exit 0 (Some [Derived 0, External 0]),
      (\<lparr>started = True, stopped = False, ctx = Some [Derived 0, External 0],
         parentCtx = Some [External 0], stopFunc = Some (Derived 0), name = ''arbnode.Node'',
         waitChan = None, wg = 0\<rparr>,
       \<lparr>cancelled = {}, closed = {}, next_token = 1, next_chan = 0,
         threads = [Task T179 0 (Some [Derived 0, External 0])],
         now = 0, logged = [], panicked = False\<rparr>))"
    using d unfolding 3 by (simp del: LaunchThreadSafe.simps thread_step.simps run.simps)
  from 1 2 r 3 4 show ?thesis by blast
qed

subsection \<open>\<open>Start\<close> after stop\<close>

lemma StopAndWait_not_started:
  assumes "\<not> started s" and "\<not> panicked rt"
  shows "run [Call_StopAndWait wt, Step (length (threads rt)), Step (length (threads rt))] (s, rt) =
         Some (s\<lparr>stopped := True\<rparr>, rt\<lparr>threads := threads rt @ [StopCall R124 wt]\<rparr>)"
  using assms
  by (simp add: step_def go_def exec_thread_def set_thread_def Started_def nth_append)

lemma stopped_Start_scope:
  assumes "stopped s" and "\<not> started s"
  shows "fst (Start c parent (s, rt)) = None"
    and "ctx (fst (snd (Start c parent (s, rt)))) = Some (Derived (next_token rt) # c)"
    and "started (fst (snd (Start c parent (s, rt))))"
    and "stopped (fst (snd (Start c parent (s, rt))))"
    and "scope_cancelled (snd (Start c parent (s, rt)))"
  using assms by (simp_all add: Start_fresh scope_cancelled_def cancel_def ctx_Err_def)

lemma stopped_scope_kept:
  assumes "run acts w = Some w'" and "started (fst w)" and "stopped (fst w)"
    and "scope_cancelled w"
  shows "started (fst w') \<and> stopped (fst w') \<and> ctx (fst w') = ctx (fst w) \<and> scope_cancelled w'"
proof -
  have lt: "later w w'" using assms(1) by (rule later_run)
  then show ?thesis
    using assms(2-4) scope_cancelled_later [OF lt] by (simp add: later_def)
qed

text \<open>
  C1.  When \<open>StopOnly\<close>, or \<open>StopAndWait\<close> run to its return, has been called on a
  controller that is not started, the next \<open>Start\<close> returns no error and the scope it makes
  is cancelled when \<open>Start\<close> returns.  Whatever is scheduled afterwards, the controller
  hands out that same scope, the scope is cancelled, so that a check of it finds it
  cancelled, and \<open>LaunchThreadSafe\<close> starts nothing.
\<close>

theorem Start_after_stop:
  assumes "\<not> started (fst w0)"
    and "w = StopOnly w0 \<or>
         run [Call_StopAndWait wt, Step (length (threads (snd w0))),
              Step (length (threads (snd w0)))] w0 = Some w"
  shows "fst (Start c parent w) = None \<and>
         ctx (fst (snd (Start c parent w))) = Some (Derived (next_token (snd w)) # c) \<and>
         scope_cancelled (snd (Start c parent w)) \<and>
         (\<forall>acts w'. run acts (snd (Start c parent w)) = Some w' \<longrightarrow>
            GetContextSafe (fst w') = Inr (Some (Derived (next_token (snd w)) # c)) \<and>
            scope_cancelled w' \<and>
            (\<forall>foo. LaunchThreadSafe foo w' = (None, w')))"
proof -
  obtain s0 rt0 where w0: "w0 = (s0, rt0)" by (cases w0)
  obtain s rt where w: "w = (s, rt)" by (cases w)
  have ss: "stopped s \<and> \<not> started s"
  proof (rule disjE [OF assms(2)])
    assume "w = StopOnly w0"
    with assms(1) w0 w show ?thesis by auto
  next
    assume r: "run [Call_StopAndWait wt, Step (length (threads (snd w0))),
              Step (length (threads (snd w0)))] w0 = Some w"
    then have "\<not> panicked rt0"
      using w0 by (auto simp add: step_def split: if_splits)
    from StopAndWait_not_started [OF _ this, of s0 wt] assms(1) r w0 w show ?thesis
      by auto
  qed
  note a = stopped_Start_scope [of s c parent rt]
  let ?w1 = "snd (Start c parent (s, rt))"
  have later_part: "GetContextSafe (fst w') = Inr (Some (Derived (next_token rt) # c)) \<and>
            scope_cancelled w' \<and> (\<forall>foo. LaunchThreadSafe foo w' = (None, w'))"
    if r: "run acts ?w1 = Some w'" for acts w'
  proof -
    from stopped_scope_kept [OF r] a ss
    have k: "started (fst w')" "stopped (fst w')"
      "ctx (fst w') = Some (Derived (next_token rt) # c)" "scope_cancelled w'"
      by simp_all
    then show ?thesis
      by (cases w') (simp add: GetContextSafe_def getContext_def LaunchThreadSafe_stopped
          del: LaunchThreadSafe.simps)
  qed
  from a ss later_part show ?thesis
    unfolding w by (simp del: LaunchThreadSafe.simps)
qed

lemma stopped_start_world:
  "snd (Start [External 0] ''*arbnode.Node'' (StopOnly (init_world :: nat world))) =
     (\<lparr>started = True, stopped = True, ctx = Some [Derived 0, External 0],
        parentCtx = Some [External 0], stopFunc = Some (Derived 0), name = ''arbnode.Node'',
        waitChan = None, wg = 0\<rparr>,
      \<lparr>cancelled = {Derived 0}, closed = {}, next_token = 1, next_chan = 0, threads = [],
        now = 0, logged = [], panicked = False\<rparr>)"
  by (simp add: init_world_def init_runtime_def zero_StopWaiterSafe_def getParentName_def
      Start_fresh cancel_def)

theorem Start_after_stop_witness:
  "fst (Start [External 0] ''*arbnode.Node'' (StopOnly (init_world :: nat world))) = None \<and>
   scope_cancelled (snd (Start [External 0] ''*arbnode.Node'' (StopOnly (init_world :: nat world)))) \<and>
   run [Call_LaunchThreadSafe 7, Step 0, Step 0]
     (snd (Start [External 0] ''*arbnode.Node'' (StopOnly (init_world :: nat world)))) =
     Some (\<lparr>started = True, stopped = True, ctx = Some [Derived 0, External 0],
        parentCtx = Some [External 0], stopFunc = Some (Derived 0), name = ''arbnode.Node'',
        waitChan = None, wg = 0\<rparr>,
      \<lparr>cancelled = {Derived 0}, closed = {}, next_token = 1, next_chan = 0,
        threads = [LaunchCall (L_ret None) 7],
        now = 0, logged = [], panicked = False\<rparr>) \<and>
   scope_cancelled (\<lparr>started = True, stopped = True, ctx = Some [Derived 0, External 0],
        parentCtx = Some [External 0], stopFunc = Some (Derived 0), name = ''arbnode.Node'',
        waitChan = None, wg = 0\<rparr>,
      \<lparr>cancelled = {Derived 0}, closed = {}, next_token = 1, next_chan = 0,
        threads = [LaunchCall (L_ret None) (7::nat)],
        now = 0, logged = [], panicked = False\<rparr>)"
proof -
  have ns: "\<not> started (fst (init_world :: nat world))"
    by (simp add: init_world_def zero_StopWaiterSafe_def)
  note t = Start_after_stop [OF ns disjI1 [OF refl], of "[External 0]" "''*arbnode.Node''"]
  have r: "run [Call_LaunchThreadSafe 7, Step 0, Step 0]
     (snd (Start [External 0] ''*arbnode.Node'' (StopOnly (init_world :: nat world)))) =
     Some (\<lparr>started = True, stopped = True, ctx = Some [Derived 0, External 0],
        parentCtx = Some [External 0], stopFunc = Some (Derived 0), name = ''arbnode.Node'',
        waitChan = None, wg = 0\<rparr>,
      \<lparr>cancelled = {Derived 0}, closed = {}, next_token = 1, next_chan = 0,
        threads = [LaunchCall (L_ret None) 7],
        now = 0, logged = [], panicked = False\<rparr>)"
    unfolding stopped_start_world
    by (simp add: step_def go_def exec_thread_def set_thread_def GetContextSafe_def
        getContext_def Stopped_def)
  from t r show ?thesis by blast
qed

subsection \<open>\<open>StopAndWait\<close> and the drain signal\<close>

lemma watcher_step_drain:
  assumes "watcher_step pc c ch w = Some (pc', wm)" and "thread_ok w (Watcher pc c ch)"
    and "world_ok w"
  shows "(pc' = W161 \<or> pc' = W_exit \<longrightarrow> pc = W161 \<or> pc = W_exit \<or> drained w) \<and>
         (closed (snd wm) \<noteq> closed (snd w) \<longrightarrow> pc = W161 \<or> pc = W_exit)"
  using assms
  by (cases w; cases pc)
    (auto simp add: drained_def panic_def close_chan_def world_ok_def
      split: option.splits if_splits)

lemma thread_step_drain:
  assumes ts: "thread_step t tm w = Some (t', wm)" and ok: "thread_ok w t"
    and wok: "world_ok w"
  shows "(watcher_past t' \<longrightarrow> watcher_past t \<or> drained w) \<and>
         (closed (snd wm) \<noteq> closed (snd w) \<longrightarrow> watcher_past t)"
proof (cases t)
  case (Watcher pc c ch)
  with ts ok wok show ?thesis by (auto dest: watcher_step_drain)
next
  case (Task pc foo c)
  with ts show ?thesis
    by (cases w; cases pc) (auto simp add: wg_Done_def panic_def split: if_splits)
next
  case (LaunchCall pc foo)
  with ts show ?thesis
    by (cases w; cases pc) (auto simp add: panic_def go_def split: if_splits sum.splits)
next
  case (StopCall pc wt)
  have g: "closed (snd (snd (GetWaitChannel w))) = closed (snd w)"
    by (cases w) (auto simp add: getContext_def make_chan_def go_def split: option.splits)
  have o: "closed (snd (StopOnly w)) = closed (snd w)"
    by (cases w) (auto simp add: call_stopFunc_def cancel_def panic_def split: option.splits)
  from ts StopCall obtain pc' where t': "t' = StopCall pc' wt"
    and ss: "stop_step pc wt tm w = Some (pc', wm)"
    by auto
  have "closed (snd wm) = closed (snd w)"
  proof (cases pc)
    case S121
    with ss o show ?thesis by auto
  next
    case S130
    with ss g show ?thesis by (auto split: prod.splits sum.splits)
  qed (use ss in \<open>cases w; auto split: if_splits\<close>)+
  with t' show ?thesis by simp
qed

lemma drain_due_step:
  assumes st: "step a w = Some w'" and i: "invariant w" and due: "drain_due w'"
  shows "drain_due w \<or> drained w"
  using st
proof (cases rule: step_cases)
  case (call new)
  with due show ?thesis by (auto simp add: drain_due_def)
next
  case (thread j tm t' wm)
  let ?t = "threads (snd w) ! j"
  from i thread(2) have ok: "thread_ok w ?t"
    by (simp add: invariant_def threads_ok_def)
  from i have wok: "world_ok w" by (simp add: invariant_def)
  note d = thread_step_drain [OF thread(3) ok wok]
  have tin: "?t \<in> set (threads (snd w))" using thread(2) by simp
  from thread(3) obtain new where new: "threads (snd wm) = threads (snd w) @ new"
    "\<forall>u \<in> set new. \<not> watcher_past u"
    by (rule thread_step_prefix)
  from due consider u where "u \<in> set (threads (snd w'))" "watcher_past u"
    | "closed (snd w') \<noteq> {}"
    by (auto simp add: drain_due_def)
  then show ?thesis
  proof cases
    case 1
    then have "u \<in> insert t' (set (threads (snd wm)))"
      using set_update_subset_insert [of "threads (snd wm)" j t'] thread(4) by auto
    then show ?thesis
    proof
      assume "u = t'"
      with 1 d tin show ?thesis by (auto simp add: drain_due_def)
    next
      assume "u \<in> set (threads (snd wm))"
      with 1 new show ?thesis by (auto simp add: drain_due_def)
    qed
  next
    case 2
    then have "closed (snd wm) \<noteq> {}" using thread(4) by simp
    then show ?thesis
      using d tin by (cases "closed (snd wm) = closed (snd w)") (auto simp add: drain_due_def)
  qed
qed

lemma was_drained_snoc:
  assumes "was_drained acts w0"
  shows "was_drained (acts @ [a]) w0"
proof -
  from assms obtain n where n: "n \<le> length acts"
    and d: "case run (take n acts) w0 of None \<Rightarrow> False | Some w \<Rightarrow> drained w"
    by (auto simp add: was_drained_def)
  from n have "take n (acts @ [a]) = take n acts" by simp
  with n d show ?thesis
    unfolding was_drained_def by (intro bexI [of _ n]) auto
qed

lemma was_drained_last:
  assumes "run acts w0 = Some w" and "drained w"
  shows "was_drained (acts @ [a]) w0"
  unfolding was_drained_def using assms
  by (intro bexI [of _ "length acts"]) auto

lemma drain_due_run:
  assumes "run acts w0 = Some w" and "invariant w0" and "\<not> drain_due w0" and "drain_due w"
  shows "was_drained acts w0"
  using assms(1,4)
proof (induction acts arbitrary: w rule: rev_induct)
  case Nil
  with assms(3) show ?case by simp
next
  case (snoc a acts)
  from snoc.prems(1) obtain w1 where r: "run acts w0 = Some w1" and st: "step a w1 = Some w"
    by (auto simp add: run_snoc)
  from r assms(2) have "invariant w1" by (rule inv_run)
  from st this snoc.prems(2) have "drain_due w1 \<or> drained w1"
    by (rule drain_due_step)
  then show ?case
  proof
    assume "drain_due w1"
    with r have "was_drained acts w0" by (rule snoc.IH)
    then show ?thesis by (rule was_drained_snoc)
  next
    assume "drained w1"
    with r show ?thesis by (rule was_drained_last)
  qed
qed

lemma stop_step_started:
  assumes "stop_step pc wt tm w = Some (pc', w')" and "started (fst w)" and "pc \<noteq> R124"
  shows "pc' \<noteq> R124"
  using assms
  by (cases w; cases pc) (auto simp add: Started_def split: if_splits prod.splits sum.splits)

lemma stop_call_step:
  assumes st: "step a w = Some w'" and s: "started (fst w)"
    and i: "i < length (threads (snd w))"
    and t: "threads (snd w) ! i = StopCall pc wt" and pc: "pc \<noteq> R124"
  shows "started (fst w') \<and> i < length (threads (snd w')) \<and>
         (\<exists>pc'. threads (snd w') ! i = StopCall pc' wt \<and> pc' \<noteq> R124)"
proof -
  from st have "later w w'" by (rule later_step)
  with s i have s': "started (fst w')" and i': "i < length (threads (snd w'))"
    by (auto simp add: later_def)
  have "\<exists>pc'. threads (snd w') ! i = StopCall pc' wt \<and> pc' \<noteq> R124"
    using st
  proof (cases rule: step_cases)
    case (call new)
    with i t pc show ?thesis by (simp add: nth_append)
  next
    case (thread j tm t' wm)
    from thread(3) obtain new where new: "threads (snd wm) = threads (snd w) @ new"
      by (rule thread_step_prefix)
    show ?thesis
    proof (cases "j = i")
      case True
      with thread(3) t obtain pc' where "t' = StopCall pc' wt"
        and "stop_step pc wt tm w = Some (pc', wm)"
        by auto
      with stop_step_started [OF _ s pc] have "t' = StopCall pc' wt \<and> pc' \<noteq> R124"
        by blast
      with True thread(4) new i show ?thesis by simp
    next
      case False
      with thread(4) new i t pc show ?thesis by (simp add: nth_append)
    qed
  qed
  with s' i' show ?thesis by simp
qed

lemma stop_call_run:
  assumes "run acts w = Some w'" and "started (fst w)"
    and "i < length (threads (snd w))"
    and "threads (snd w) ! i = StopCall pc wt" and "pc \<noteq> R124"
  shows "\<exists>pc'. threads (snd w') ! i = StopCall pc' wt \<and> pc' \<noteq> R124"
  using assms
proof (induction acts arbitrary: w pc)
  case Nil
  then show ?case by simp
next
  case (Cons a acts)
  from Cons.prems(1) obtain w1 where st: "step a w = Some w1" and r: "run acts w1 = Some w'"
    by (auto split: option.splits)
  from stop_call_step [OF st Cons.prems(2-5)] obtain pc1
    where "started (fst w1)" "i < length (threads (snd w1))"
      "threads (snd w1) ! i = StopCall pc1 wt" "pc1 \<noteq> R124"
    by blast
  with r show ?case by (rule Cons.IH)
qed

lemma drain_fired_due: "drain_fired w \<Longrightarrow> drain_due w"
  by (auto simp add: drain_fired_def drain_due_def split: option.splits)

lemma not_due_init: "\<not> drain_due init_world"
  by (simp add: drain_due_def init_world_def init_runtime_def)

lemma was_drained_scope:
  assumes r: "run acts w0 = Some w" and d: "was_drained acts w0"
  shows "scope_cancelled w"
proof -
  from d obtain n w1 where n: "n \<le> length acts" and r1: "run (take n acts) w0 = Some w1"
    and dr: "drained w1"
    by (auto simp add: was_drained_def split: option.splits)
  have "run (take n acts @ drop n acts) w0 = Some w" using r by simp
  with r1 have "run (drop n acts) w1 = Some w"
    unfolding run_append by simp
  then have "later w1 w" by (rule later_run)
  with dr show ?thesis
    by (auto simp add: drained_def intro: scope_cancelled_later)
qed

text \<open>
  C2.  \<open>StopAndWait\<close> called in a world \<open>w1\<close> that a schedule reaches from the beginning,
  and then any schedule \<open>post\<close>.  If the controller is not started in \<open>w1\<close>, the first two
  statements of the call are enabled there and the second is the \<open>return nil\<close> of line 124.
  If it is started, the call is never at the \<open>return\<close> of line 124 or of line 132, and it
  is at the \<open>return nil\<close> of line 143 or 146 only with the drain signal fired.  And when
  the drain signal has fired, the scope is cancelled and the schedule has passed through a
  world in which the controller was started, its scope cancelled and the counter zero.
\<close>

theorem StopAndWait_waits_for_drain:
  assumes reach: "run pre init_world = Some w1"
    and call: "run (Call_StopAndWait wt # post) w1 = Some w2"
  shows "(\<not> started (fst w1) \<longrightarrow>
            run [Call_StopAndWait wt, Step (length (threads (snd w1))),
                 Step (length (threads (snd w1)))] w1 =
              Some ((fst w1)\<lparr>stopped := True\<rparr>,
                    (snd w1)\<lparr>threads := threads (snd w1) @ [StopCall R124 wt]\<rparr>)) \<and>
         (started (fst w1) \<longrightarrow>
            (\<exists>pc. threads (snd w2) ! length (threads (snd w1)) = StopCall pc wt \<and>
                  pc \<noteq> R124 \<and> (\<forall>err. pc \<noteq> R132 err) \<and>
                  (pc = R143 \<or> pc = R146 \<longrightarrow> drain_fired w2))) \<and>
         (drain_fired w2 \<longrightarrow>
            scope_cancelled w2 \<and> was_drained (pre @ Call_StopAndWait wt # post) init_world)"
proof -
  obtain s1 rt1 where w1: "w1 = (s1, rt1)" by (cases w1)
  from call obtain w1' where st: "step (Call_StopAndWait wt) w1 = Some w1'"
    and post: "run post w1' = Some w2"
    by (auto split: option.splits)
  from st have np: "\<not> panicked rt1" and w1': "w1' = (s1, go (StopCall S121 wt) rt1)"
    using w1 by (auto simp add: step_def split: if_splits)
  have whole: "run (pre @ Call_StopAndWait wt # post) init_world = Some w2"
    using reach call by (simp add: run_append)
  have i2: "invariant w2"
    using whole inv_init by (rule inv_run)
  have a: "\<not> started (fst w1) \<longrightarrow>
            run [Call_StopAndWait wt, Step (length (threads (snd w1))),
                 Step (length (threads (snd w1)))] w1 =
              Some ((fst w1)\<lparr>stopped := True\<rparr>,
                    (snd w1)\<lparr>threads := threads (snd w1) @ [StopCall R124 wt]\<rparr>)"
    using StopAndWait_not_started [OF _ np, of s1 wt] w1 by simp
  have b: "\<exists>pc. threads (snd w2) ! length (threads (snd w1)) = StopCall pc wt \<and>
                  pc \<noteq> R124 \<and> (\<forall>err. pc \<noteq> R132 err) \<and>
                  (pc = R143 \<or> pc = R146 \<longrightarrow> drain_fired w2)"
    if s: "started (fst w1)"
  proof -
    let ?i = "length (threads (snd w1))"
    have "started (fst w1')" "?i < length (threads (snd w1'))"
      "threads (snd w1') ! ?i = StopCall S121 wt"
      using s w1 w1' by (simp_all add: go_def)
    from stop_call_run [OF post this] obtain pc
      where pc: "threads (snd w2) ! ?i = StopCall pc wt" "pc \<noteq> R124"
      by auto
    have "later w1' w2" using post by (rule later_run)
    then have "?i < length (threads (snd w2))"
      using w1 w1' by (simp add: later_def go_def)
    with pc(1) have "StopCall pc wt \<in> set (threads (snd w2))"
      by (metis nth_mem)
    with i2 have "stop_ok w2 pc"
      by (auto simp add: invariant_def threads_ok_def)
    then have "(\<forall>err. pc \<noteq> R132 err) \<and> (pc = R143 \<or> pc = R146 \<longrightarrow> drain_fired w2)"
      by auto
    with pc show ?thesis by blast
  qed
  have c: "scope_cancelled w2 \<and> was_drained (pre @ Call_StopAndWait wt # post) init_world"
    if f: "drain_fired w2"
  proof -
    from f have "drain_due w2" by (rule drain_fired_due)
    with whole inv_init not_due_init
    have "was_drained (pre @ Call_StopAndWait wt # post) init_world"
      by (rule drain_due_run)
    with whole show ?thesis by (auto intro: was_drained_scope)
  qed
  from a b c show ?thesis by blast
qed

lemma example_pre:
  "run [Call_Start [External 0] ''*arbnode.Node'', Call_LaunchThreadSafe (7::nat),
        Step 0, Step 0, Step 0, Step 0] init_world =
   Some (\<lparr>started = True, stopped = False, ctx = Some [Derived 0, External 0],
      parentCtx = Some [External 0], stopFunc = Some (Derived 0),
      name = ''arbnode.Node'', waitChan = None, wg = 1\<rparr>,
   \<lparr>cancelled = {}, closed = {}, next_token = 1, next_chan = 0,
      threads = [LaunchCall (L_ret None) 7, Task T179 7 (Some [Derived 0, External 0])],
      now = 0, logged = [], panicked = False\<rparr>)"
  by (simp add: eval_defs)

lemma example_post:
  "run [Call_StopAndWait 5, Step 2, Step 2, Step 2, Step 2, Step 3, Step 1, Step 1, Step 3,
        Step 3, Step 2]
     (\<lparr>started = True, stopped = False, ctx = Some [Derived 0, External 0],
      parentCtx = Some [External 0], stopFunc = Some (Derived 0),
      name = ''arbnode.Node'', waitChan = None, wg = 1\<rparr>,
   \<lparr>cancelled = {}, closed = {}, next_token = 1, next_chan = 0,
      threads = [LaunchCall (L_ret None) (7::nat), Task T179 7 (Some [Derived 0, External 0])],
      now = 0, logged = [], panicked = False\<rparr>) =
   Some (\<lparr>started = True, stopped = True, ctx = Some [Derived 0, External 0],
      parentCtx = Some [External 0], stopFunc = Some (Derived 0),
      name = ''arbnode.Node'', waitChan = Some 0, wg = 0\<rparr>,
   \<lparr>cancelled = {Derived 0}, closed = {0}, next_token = 1, next_chan = 1,
      threads =
        [LaunchCall (L_ret None) 7,
         Task T_exit 7 (Some [Derived 0, External 0]), StopCall R143 5,
         Watcher W_exit (Some [Derived 0, External 0]) 0],
      now = 0, logged = [], panicked = False\<rparr>)"
  by (simp add: eval_defs)

lemma example_not_started:
  "run [Call_StopAndWait 5, Step 0, Step 0] (init_world :: nat world) =
   Some (\<lparr>started = False, stopped = True, ctx = None, parentCtx = None,
      stopFunc = None, name = [], waitChan = None, wg = 0\<rparr>,
   \<lparr>cancelled = {}, closed = {}, next_token = 0, next_chan = 0,
      threads = [StopCall R124 5], now = 0, logged = [], panicked = False\<rparr>)"
  by (simp add: eval_defs)

theorem StopAndWait_waits_for_drain_witness:
  "run [Call_StopAndWait 5, Step 0, Step 0] (init_world :: nat world) =
     Some (\<lparr>started = False, stopped = True, ctx = None, parentCtx = None,
        stopFunc = None, name = [], waitChan = None, wg = 0\<rparr>,
      \<lparr>cancelled = {}, closed = {}, next_token = 0, next_chan = 0,
        threads = [StopCall R124 5], now = 0, logged = [], panicked = False\<rparr>) \<and>
   run ([Call_Start [External 0] ''*arbnode.Node'', Call_LaunchThreadSafe (7::nat),
         Step 0, Step 0, Step 0, Step 0] @
        [Call_StopAndWait 5, Step 2, Step 2, Step 2, Step 2, Step 3, Step 1, Step 1, Step 3,
         Step 3, Step 2]) init_world =
     Some (\<lparr>started = True, stopped = True, ctx = Some [Derived 0, External 0],
        parentCtx = Some [External 0], stopFunc = Some (Derived 0),
        name = ''arbnode.Node'', waitChan = Some 0, wg = 0\<rparr>,
      \<lparr>cancelled = {Derived 0}, closed = {0}, next_token = 1, next_chan = 1,
        threads =
          [LaunchCall (L_ret None) 7,
           Task T_exit 7 (Some [Derived 0, External 0]), StopCall R143 5,
           Watcher W_exit (Some [Derived 0, External 0]) 0],
        now = 0, logged = [], panicked = False\<rparr>) \<and>
   was_drained
     ([Call_Start [External 0] ''*arbnode.Node'', Call_LaunchThreadSafe (7::nat),
       Step 0, Step 0, Step 0, Step 0] @
      [Call_StopAndWait 5, Step 2, Step 2, Step 2, Step 2, Step 3, Step 1, Step 1, Step 3,
       Step 3, Step 2]) init_world"
proof -
  define w2 :: "nat world" where
    "w2 = (\<lparr>started = True, stopped = True, ctx = Some [Derived 0, External 0],
        parentCtx = Some [External 0], stopFunc = Some (Derived 0),
        name = ''arbnode.Node'', waitChan = Some 0, wg = 0\<rparr>,
      \<lparr>cancelled = {Derived 0}, closed = {0}, next_token = 1, next_chan = 1,
        threads =
          [LaunchCall (L_ret None) 7,
           Task T_exit 7 (Some [Derived 0, External 0]), StopCall R143 5,
           Watcher W_exit (Some [Derived 0, External 0]) 0],
        now = 0, logged = [], panicked = False\<rparr>)"
  have post: "run (Call_StopAndWait 5 #
        [Step 2, Step 2, Step 2, Step 2, Step 3, Step 1, Step 1, Step 3, Step 3, Step 2])
     (\<lparr>started = True, stopped = False, ctx = Some [Derived 0, External 0],
      parentCtx = Some [External 0], stopFunc = Some (Derived 0),
      name = ''arbnode.Node'', waitChan = None, wg = 1\<rparr>,
   \<lparr>cancelled = {}, closed = {}, next_token = 1, next_chan = 0,
      threads = [LaunchCall (L_ret None) (7::nat), Task T179 7 (Some [Derived 0, External 0])],
      now = 0, logged = [], panicked = False\<rparr>) = Some w2"
    unfolding w2_def by (rule example_post)
  have fired: "drain_fired w2"
    by (simp add: w2_def drain_fired_def)
  from StopAndWait_waits_for_drain [OF example_pre post] fired
  have d: "was_drained
     ([Call_Start [External 0] ''*arbnode.Node'', Call_LaunchThreadSafe (7::nat),
       Step 0, Step 0, Step 0, Step 0] @
      [Call_StopAndWait 5, Step 2, Step 2, Step 2, Step 2, Step 3, Step 1, Step 1, Step 3,
       Step 3, Step 2]) init_world"
    by blast
  have whole: "run ([Call_Start [External 0] ''*arbnode.Node'', Call_LaunchThreadSafe (7::nat),
         Step 0, Step 0, Step 0, Step 0] @
        [Call_StopAndWait 5, Step 2, Step 2, Step 2, Step 2, Step 3, Step 1, Step 1, Step 3,
         Step 3, Step 2]) init_world = Some w2"
    unfolding run_append example_pre using post by simp
  from example_not_started whole d show ?thesis
    unfolding w2_def by blast
qed

subsection \<open>The warning of \<open>StopAndWait\<close>\<close>

lemma timed_out_is_StopCall: "timed_out t \<Longrightarrow> is_StopCall t"
  by (cases t) simp_all

lemma filter_update_length:
  "i < length xs \<Longrightarrow>
   length (filter P (xs[i := x])) + (if P (xs ! i) then 1 else 0) =
   length (filter P xs) + (if P x then 1 else 0)"
proof (induction xs arbitrary: i)
  case Nil
  then show ?case by simp
next
  case (Cons y ys)
  show ?case
  proof (cases i)
    case 0
    then show ?thesis by simp
  next
    case (Suc j)
    with Cons.prems have "j < length ys" by simp
    from Cons.IH [OF this] Suc show ?thesis by simp
  qed
qed

lemma filter_length_le: "length (filter P xs) \<le> length (filter Q xs)" if "\<And>x. P x \<Longrightarrow> Q x"
  using that by (induction xs) auto

lemma call_logged:
  assumes "step a w = Some w'" and "\<forall>i. a \<noteq> Step i \<and> a \<noteq> Step_timer i"
  shows "logged (snd w') = logged (snd w) \<and>
         (\<exists>new. threads (snd w') = threads (snd w) @ new \<and> (\<forall>t \<in> set new. \<not> timed_out t) \<and>
            length (filter is_StopCall new) = (if is_StopAndWait a then 1 else 0))"
proof (cases a)
  case (Call_Start c parent)
  with assms show ?thesis
    by (cases w, cases "started (fst w)")
      (auto simp add: step_def Start_started Start_fresh cancel_def split: if_splits)
next
  case Call_StopOnly
  with assms show ?thesis
    by (cases w)
      (auto simp add: step_def call_stopFunc_def cancel_def panic_def
        split: if_splits option.splits)
next
  case Call_GetWaitChannel
  with assms show ?thesis
    by (cases w)
      (auto simp add: step_def getContext_def make_chan_def go_def split: if_splits option.splits)
next
  case (Call_StopAndWait wt)
  with assms show ?thesis
    by (cases w) (auto simp add: step_def go_def split: if_splits)
next
  case (Call_LaunchThreadSafe foo)
  with assms show ?thesis
    by (cases w) (auto simp add: step_def go_def split: if_splits)
next
  case (Cancel_external n)
  with assms show ?thesis
    by (cases w) (auto simp add: step_def cancel_def split: if_splits)
next
  case (Tick d)
  with assms show ?thesis
    by (cases w) (auto simp add: step_def split: if_splits)
qed (use assms in auto)

lemma stop_step_logged:
  assumes "stop_step pc wt tm w = Some (pc', wm)"
  shows "length (filter is_too_long (logged (snd wm))) + (if timed_out (StopCall pc wt) then 1 else 0) =
         length (filter is_too_long (logged (snd w))) + (if timed_out (StopCall pc' wt) then 1 else 0)"
proof (cases pc)
  case S121
  have "logged (snd (StopOnly w)) = logged (snd w)"
    by (cases w) (auto simp add: call_stopFunc_def cancel_def panic_def split: option.splits)
  with S121 assms show ?thesis by auto
next
  case S130
  have "logged (snd (snd (GetWaitChannel w))) = logged (snd w)"
    by (cases w) (auto simp add: getContext_def make_chan_def go_def split: option.splits)
  with S130 assms show ?thesis by (auto split: prod.splits sum.splits)
qed (use assms in \<open>cases w; auto split: if_splits\<close>)+

lemma thread_step_logged:
  assumes ts: "thread_step t tm w = Some (t', wm)"
  shows "length (filter is_too_long (logged (snd wm))) + (if timed_out t then 1 else 0) =
         length (filter is_too_long (logged (snd w))) + (if timed_out t' then 1 else 0) \<and>
         is_StopCall t' = is_StopCall t"
proof (cases t)
  case (Watcher pc c ch)
  with ts show ?thesis
    by (cases w; cases pc) (auto simp add: panic_def close_chan_def split: option.splits if_splits)
next
  case (Task pc foo c)
  with ts show ?thesis
    by (cases w; cases pc) (auto simp add: wg_Done_def panic_def split: if_splits)
next
  case (LaunchCall pc foo)
  with ts show ?thesis
    by (cases w; cases pc) (auto simp add: panic_def go_def split: if_splits sum.splits)
next
  case (StopCall pc wt)
  with ts obtain pc' where "t' = StopCall pc' wt" "stop_step pc wt tm w = Some (pc', wm)"
    by auto
  with StopCall stop_step_logged [of pc wt tm w pc' wm] show ?thesis by simp
qed

lemma thread_step_new:
  assumes "thread_step t tm w = Some (t', wm)"
  obtains new where "threads (snd wm) = threads (snd w) @ new"
    and "filter timed_out new = []" and "filter is_StopCall new = []"
proof -
  from thread_step_threads [OF assms] show ?thesis
  proof (elim disjE exE conjE)
    assume "threads (snd wm) = threads (snd w)"
    then show ?thesis by (intro that [of "[]"]) auto
  next
    assume "threads (snd wm) = threads (snd w) @ [Watcher W159 (ctx (fst w)) (next_chan (snd w))]"
    then show ?thesis by (intro that [of "[Watcher W159 (ctx (fst w)) (next_chan (snd w))]"]) auto
  next
    fix foo c assume "threads (snd wm) = threads (snd w) @ [Task T179 foo c]"
    then show ?thesis by (intro that [of "[Task T179 foo c]"]) auto
  qed
qed

lemma warnings_step:
  assumes st: "step a w = Some w'"
  shows "warnings w' + length (filter timed_out (threads (snd w))) =
           warnings w + length (filter timed_out (threads (snd w'))) \<and>
         length (filter is_StopCall (threads (snd w'))) =
           length (filter is_StopCall (threads (snd w))) + (if is_StopAndWait a then 1 else 0)"
  using st
proof (cases rule: step_cases)
  case (call new)
  from call_logged [OF st call(1)] show ?thesis
    by (auto simp add: warnings_def filter_empty_conv)
next
  case (thread i tm t' wm)
  let ?t = "threads (snd w) ! i"
  from thread(3) obtain new where new: "threads (snd wm) = threads (snd w) @ new"
    "filter timed_out new = []" "filter is_StopCall new = []"
    by (rule thread_step_new)
  from thread(2) new(1) have i: "i < length (threads (snd wm))"
    and nth: "threads (snd wm) ! i = ?t"
    by (simp_all add: nth_append)
  note l = thread_step_logged [OF thread(3)]
  note u1 = filter_update_length [OF i, of timed_out t']
  note u2 = filter_update_length [OF i, of is_StopCall t']
  have na: "\<not> is_StopAndWait a" using thread(1) by auto
  have th: "threads (snd w') = (threads (snd wm))[i := t']"
    and lg: "logged (snd w') = logged (snd wm)"
    using thread(4) by simp_all
  from l u1 u2 show ?thesis
    unfolding warnings_def th lg nth using new(2,3) na
    by (simp add: new(1))
qed

lemma warnings_run:
  assumes "run acts w0 = Some w"
  shows "warnings w + length (filter timed_out (threads (snd w0))) =
           warnings w0 + length (filter timed_out (threads (snd w))) \<and>
         length (filter is_StopCall (threads (snd w))) =
           length (filter is_StopCall (threads (snd w0))) + length (filter is_StopAndWait acts)"
  using assms
proof (induction acts arbitrary: w0)
  case Nil
  then show ?case by simp
next
  case (Cons a acts)
  from Cons.prems obtain w1 where st: "step a w0 = Some w1" and r: "run acts w1 = Some w"
    by (auto split: option.splits)
  from warnings_step [OF st] Cons.IH [OF r] show ?case by auto
qed

text \<open>
  C9, as amended.  In every schedule the number of "taking too long to stop" warnings in
  the log is the number of calls of \<open>stopAndWaitImpl\<close> that have taken the timer case of
  the \<open>select\<close>: a call warns once when its timer fires before the drain signal, and never
  again.  So there are at most as many warnings as calls of \<open>StopAndWait\<close>.  And a call has
  returned from line 143 or 146 only with the drain signal fired.
\<close>

theorem StopAndWait_warns_once:
  assumes "run acts init_world = Some w"
  shows "warnings w = length (filter timed_out (threads (snd w))) \<and>
         warnings w \<le> length (filter is_StopAndWait acts) \<and>
         (\<forall>wt. StopCall R143 wt \<in> set (threads (snd w)) \<or>
               StopCall R146 wt \<in> set (threads (snd w)) \<longrightarrow> drain_fired w)"
proof -
  from warnings_run [OF assms]
  have w: "warnings w = length (filter timed_out (threads (snd w)))"
    and c: "length (filter is_StopCall (threads (snd w))) = length (filter is_StopAndWait acts)"
    by (simp_all add: init_world_def init_runtime_def warnings_def)
  have "length (filter timed_out (threads (snd w))) \<le> length (filter is_StopCall (threads (snd w)))"
    by (rule filter_length_le) (rule timed_out_is_StopCall)
  with w c have le: "warnings w \<le> length (filter is_StopAndWait acts)" by simp
  have "invariant w" using assms inv_init by (rule inv_run)
  then have "\<forall>wt. StopCall R143 wt \<in> set (threads (snd w)) \<or>
               StopCall R146 wt \<in> set (threads (snd w)) \<longrightarrow> drain_fired w"
    by (auto simp add: invariant_def threads_ok_def)
  with w le show ?thesis by blast
qed

lemma example_warned:
  "run [Call_Start [External 0] ''*arbnode.Node'', Call_LaunchThreadSafe (7::nat),
        Step 0, Step 0, Step 0, Step 0,
        Call_StopAndWait 1, Step 2, Step 2, Step 2, Step 2,
        Tick 1, Step_timer 2, Tick 5, Step 3, Step 1, Step 1, Step 3, Step 3, Step 2] init_world =
     Some (\<lparr>started = True, stopped = True, ctx = Some [Derived 0, External 0],
        parentCtx = Some [External 0], stopFunc = Some (Derived 0),
        name = ''arbnode.Node'', waitChan = Some 0, wg = 0\<rparr>,
      \<lparr>cancelled = {Derived 0}, closed = {0}, next_token = 1, next_chan = 1,
        threads =
          [LaunchCall (L_ret None) 7,
           Task T_exit 7 (Some [Derived 0, External 0]), StopCall R146 1,
           Watcher W_exit (Some [Derived 0, External 0]) 0],
        now = 6,
        logged = [Warn_taking_too_long ''arbnode.Node'' 1, Warn_traces],
        panicked = False\<rparr>)"
  by (simp add: eval_defs)

theorem StopAndWait_warns_once_witness:
  "run [Call_Start [External 0] ''*arbnode.Node'', Call_LaunchThreadSafe (7::nat),
        Step 0, Step 0, Step 0, Step 0,
        Call_StopAndWait 1, Step 2, Step 2, Step 2, Step 2,
        Tick 1, Step_timer 2, Tick 5, Step 3, Step 1, Step 1, Step 3, Step 3, Step 2] init_world =
     Some (\<lparr>started = True, stopped = True, ctx = Some [Derived 0, External 0],
        parentCtx = Some [External 0], stopFunc = Some (Derived 0),
        name = ''arbnode.Node'', waitChan = Some 0, wg = 0\<rparr>,
      \<lparr>cancelled = {Derived 0}, closed = {0}, next_token = 1, next_chan = 1,
        threads =
          [LaunchCall (L_ret None) 7,
           Task T_exit 7 (Some [Derived 0, External 0]), StopCall R146 1,
           Watcher W_exit (Some [Derived 0, External 0]) 0],
        now = 6,
        logged = [Warn_taking_too_long ''arbnode.Node'' 1, Warn_traces],
        panicked = False\<rparr>) \<and>
   warnings (\<lparr>started = True, stopped = True, ctx = Some [Derived 0, External 0],
        parentCtx = Some [External 0], stopFunc = Some (Derived 0),
        name = ''arbnode.Node'', waitChan = Some 0, wg = 0\<rparr>,
      \<lparr>cancelled = {Derived 0}, closed = {0}, next_token = 1, next_chan = 1,
        threads =
          [LaunchCall (L_ret None) (7::nat),
           Task T_exit 7 (Some [Derived 0, External 0]), StopCall R146 1,
           Watcher W_exit (Some [Derived 0, External 0]) 0],
        now = 6,
        logged = [Warn_taking_too_long ''arbnode.Node'' 1, Warn_traces],
        panicked = False\<rparr>) = 1 \<and>
   drain_fired (\<lparr>started = True, stopped = True, ctx = Some [Derived 0, External 0],
        parentCtx = Some [External 0], stopFunc = Some (Derived 0),
        name = ''arbnode.Node'', waitChan = Some 0, wg = 0\<rparr>,
      \<lparr>cancelled = {Derived 0}, closed = {0}, next_token = 1, next_chan = 1,
        threads =
          [LaunchCall (L_ret None) (7::nat),
           Task T_exit 7 (Some [Derived 0, External 0]), StopCall R146 1,
           Watcher W_exit (Some [Derived 0, External 0]) 0],
        now = 6,
        logged = [Warn_taking_too_long ''arbnode.Node'' 1, Warn_traces],
        panicked = False\<rparr>)"
  using StopAndWait_warns_once [OF example_warned] example_warned
  by simp

text \<open>
  C9, as the claim has it, fails.  A task that does not return blocks the shutdown;
  \<open>StopAndWait\<close> is called with a timeout of 1, the timer fires at time 1 and the warning
  is logged; at time 5 the call is still blocked at line 145, the log has the one warning,
  and neither the timer case nor the receive is enabled for it: nothing more is logged
  until the drain signal fires.
\<close>

theorem StopAndWait_warning_not_recurring:
  "run [Call_Start [External 0] ''*arbnode.Node'', Call_LaunchThreadSafe (7::nat),
        Step 0, Step 0, Step 0, Step 0,
        Call_StopAndWait 1, Step 2, Step 2, Step 2, Step 2,
        Tick 1, Step_timer 2, Tick 1, Tick 1, Tick 1, Tick 1] init_world =
     Some (\<lparr>started = True, stopped = True, ctx = Some [Derived 0, External 0],
        parentCtx = Some [External 0], stopFunc = Some (Derived 0),
        name = ''arbnode.Node'', waitChan = Some 0, wg = 1\<rparr>,
      \<lparr>cancelled = {Derived 0}, closed = {}, next_token = 1, next_chan = 1,
        threads =
          [LaunchCall (L_ret None) 7,
           Task T179 7 (Some [Derived 0, External 0]), StopCall (S145 0) 1,
           Watcher W159 (Some [Derived 0, External 0]) 0],
        now = 5,
        logged = [Warn_taking_too_long ''arbnode.Node'' 1, Warn_traces],
        panicked = False\<rparr>) \<and>
   warnings (\<lparr>started = True, stopped = True, ctx = Some [Derived 0, External 0],
        parentCtx = Some [External 0], stopFunc = Some (Derived 0),
        name = ''arbnode.Node'', waitChan = Some 0, wg = 1\<rparr>,
      \<lparr>cancelled = {Derived 0}, closed = {}, next_token = 1, next_chan = 1,
        threads =
          [LaunchCall (L_ret None) (7::nat),
           Task T179 7 (Some [Derived 0, External 0]), StopCall (S145 0) 1,
           Watcher W159 (Some [Derived 0, External 0]) 0],
        now = 5,
        logged = [Warn_taking_too_long ''arbnode.Node'' 1, Warn_traces],
        panicked = False\<rparr>) = 1 \<and>
   step (Step_timer 2) (\<lparr>started = True, stopped = True, ctx = Some [Derived 0, External 0],
        parentCtx = Some [External 0], stopFunc = Some (Derived 0),
        name = ''arbnode.Node'', waitChan = Some 0, wg = 1\<rparr>,
      \<lparr>cancelled = {Derived 0}, closed = {}, next_token = 1, next_chan = 1,
        threads =
          [LaunchCall (L_ret None) (7::nat),
           Task T179 7 (Some [Derived 0, External 0]), StopCall (S145 0) 1,
           Watcher W159 (Some [Derived 0, External 0]) 0],
        now = 5,
        logged = [Warn_taking_too_long ''arbnode.Node'' 1, Warn_traces],
        panicked = False\<rparr>) = None \<and>
   step (Step 2) (\<lparr>started = True, stopped = True, ctx = Some [Derived 0, External 0],
        parentCtx = Some [External 0], stopFunc = Some (Derived 0),
        name = ''arbnode.Node'', waitChan = Some 0, wg = 1\<rparr>,
      \<lparr>cancelled = {Derived 0}, closed = {}, next_token = 1, next_chan = 1,
        threads =
          [LaunchCall (L_ret None) (7::nat),
           Task T179 7 (Some [Derived 0, External 0]), StopCall (S145 0) 1,
           Watcher W159 (Some [Derived 0, External 0]) 0],
        now = 5,
        logged = [Warn_taking_too_long ''arbnode.Node'' 1, Warn_traces],
        panicked = False\<rparr>) = None"
  by (simp add: eval_defs warnings_def)

subsection \<open>The iterative and the triggered loops\<close>

lemma invocations_append [simp]: "invocations (xs @ ys) = invocations xs @ invocations ys"
  by (induction xs rule: invocations.induct) simp_all

lemma body_229_first: "\<exists>rest. fst (body_229 dflt c val its) = Invoke val # rest"
  by (cases its) (auto simp: emit_def split: select_243.splits)

lemma body_194_first: "\<exists>rest. fst (body_194 c its) = Invoke () # rest"
  by (cases its) (auto simp: emit_def split: select_204.splits)

lemma checks_after_calls_body_194: "checks_after_calls (fst (body_194 c its))"
  by (induction its arbitrary: c) (auto simp: emit_def split: select_204.splits)

lemma checks_after_calls_body_229: "checks_after_calls (fst (body_229 dflt c val its))"
  by (induction its arbitrary: c val) (auto simp: emit_def split: select_243.splits)

lemma body_229_invocations_first:
  "\<exists>rest. invocations (fst (body_229 dflt c val its)) = val # rest"
  using body_229_first [of dflt c val its] by auto

text \<open>
  C10.  The body of \<open>CallIterativelySafe\<close> and the body of \<open>CallIterativelyWith\<close> begin
  with a call of \<open>foo\<close>, whatever the environment does and also when the scope is
  cancelled already; every \<open>ctx.Err()\<close> check in their traces follows a call of \<open>foo\<close>
  directly; started on a cancelled scope they call \<open>foo\<close> once, check, and return.
\<close>

theorem iterative_bodies_call_first:
  "(\<exists>rest. fst (body_194 c its) = Invoke () # rest) \<and>
   checks_after_calls (fst (body_194 c its)) \<and>
   body_194 True (it # its) = ([Invoke (), Check_Err True], Returned) \<and>
   (\<exists>rest. fst (body_229 dflt c val its') = Invoke val # rest) \<and>
   checks_after_calls (fst (body_229 dflt c val its')) \<and>
   body_229 dflt True val (it' # its') = ([Invoke val, Check_Err True], Returned)"
  using body_194_first [of c its] checks_after_calls_body_194 [of c its]
    body_229_first [of dflt c val its'] checks_after_calls_body_229 [of dflt c val its']
  by simp

theorem iterative_bodies_call_first_witness:
  "body_194 True [Iteration_194 5 False Timer_208, Iteration_194 5 False Timer_208] =
     ([Invoke (), Check_Err True], Returned) \<and>
   body_229 (0::nat) True 7 [Iteration_229 5 False (Recv_248 3), Iteration_229 5 False Timer_247] =
     ([Invoke 7, Check_Err True], Returned) \<and>
   checks_after_calls (fst (body_194 False [Iteration_194 5 False Timer_208, Iteration_194 0 False Timer_208])) \<and>
   checks_after_calls (fst (body_229 (0::nat) False 7 [Iteration_229 5 False (Recv_248 3), Iteration_229 5 False Timer_247]))"
  using iterative_bodies_call_first [of True "[Iteration_194 5 False Timer_208]"
      "Iteration_194 5 False Timer_208" "0::nat" 7 "[Iteration_229 5 False Timer_247]"
      "Iteration_229 5 False (Recv_248 3)"]
    iterative_bodies_call_first [of False "[Iteration_194 5 False Timer_208, Iteration_194 0 False Timer_208]"
      "Iteration_194 5 False Timer_208" "0::nat" 7 "[Iteration_229 5 False (Recv_248 3), Iteration_229 5 False Timer_247]"
      "Iteration_229 5 False (Recv_248 3)"]
  by (simp del: body_194.simps body_229.simps)

text \<open>
  C5.  In \<open>CallIterativelyWith\<close>, after \<open>foo\<close> has returned a positive interval with the
  scope live, the body waits in the \<open>select\<close>: when the scope is done it returns and \<open>foo\<close>
  is not called again; when the timer fires the next call of \<open>foo\<close> gets the zero value;
  when a value is received from the trigger channel the next call of \<open>foo\<close> gets that
  value.
\<close>

theorem CallIterativelyWith_wait:
  assumes "0 < interval_234 it" and "\<not> c" and "\<not> cancelled_235 it"
  shows "(select_243 it = Done_244 \<longrightarrow>
            snd (body_229 dflt c val (it # its)) = Returned \<and>
            invocations (fst (body_229 dflt c val (it # its))) = [val]) \<and>
         (select_243 it = Timer_247 \<longrightarrow>
            body_229 dflt c val (it # its) =
              emit [Invoke val, Check_Err False, NewTimer (interval_234 it)]
                (body_229 dflt False dflt its) \<and>
            (\<exists>rest. invocations (fst (body_229 dflt c val (it # its))) = val # dflt # rest)) \<and>
         (\<forall>v. select_243 it = Recv_248 v \<longrightarrow>
            body_229 dflt c val (it # its) =
              emit [Invoke val, Check_Err False, NewTimer (interval_234 it)]
                (body_229 dflt False v its) \<and>
            (\<exists>rest. invocations (fst (body_229 dflt c val (it # its))) = val # v # rest))"
proof -
  have timer: "\<exists>rest. invocations (fst (body_229 dflt False dflt its)) = dflt # rest"
    by (rule body_229_invocations_first)
  have recv: "\<exists>rest. invocations (fst (body_229 dflt False v its)) = v # rest" for v
    by (rule body_229_invocations_first)
  show ?thesis
    using assms timer recv by (auto simp: emit_def)
qed

theorem CallIterativelyWith_wait_witness:
  "body_229 (0::nat) False 7 [Iteration_229 5 False Done_244] =
     ([Invoke 7, Check_Err False, NewTimer 5, Timer_Stop], Returned) \<and>
   invocations (fst (body_229 (0::nat) False 7
      [Iteration_229 5 False Timer_247, Iteration_229 5 True Timer_247])) = [7, 0] \<and>
   invocations (fst (body_229 (0::nat) False 7
      [Iteration_229 5 False (Recv_248 3), Iteration_229 5 True Timer_247])) = [7, 3]"
  using CallIterativelyWith_wait [of "Iteration_229 5 False Done_244" False "0::nat" 7 "[]"]
    CallIterativelyWith_wait [of "Iteration_229 5 False Timer_247" False "0::nat" 7
      "[Iteration_229 5 True Timer_247]"]
    CallIterativelyWith_wait [of "Iteration_229 5 False (Recv_248 3)" False "0::nat" 7
      "[Iteration_229 5 True Timer_247]"]
  by (simp add: emit_def)

lemma body_262_closed:
  "body_262 dflt False (replicate n (Iteration_262 False Closed_270) @ its) =
     emit (concat (replicate n [Check_Err False, Invoke dflt])) (body_262 dflt False its)"
  by (induction n) (simp_all add: emit_def)

text \<open>
  C6.  What the two bodies do when the trigger channel is closed.  \<open>CallIterativelyWith\<close>
  returns from the \<open>select\<close> without another call of \<open>foo\<close>.  \<open>CallWhenTriggeredWith\<close>
  does not return: each pass of its loop receives the zero value from the closed channel
  and calls \<open>foo\<close> with it, \<open>n\<close> calls in \<open>n\<close> passes, and the body is still running.
\<close>

theorem trigger_closed:
  "body_229 dflt False val (Iteration_229 (1 + int k) False Closed_248 # its) =
     ([Invoke val, Check_Err False, NewTimer (1 + int k)], Returned) \<and>
   body_262 dflt False (replicate n (Iteration_262 False Closed_270)) =
     (concat (replicate n [Check_Err False, Invoke dflt]), Running)"
  using body_262_closed [of dflt n "[]"] by (simp add: emit_def)

subsection \<open>\<open>ChanRateLimiter\<close>\<close>

lemma ChanRateLimiter_not_started:
  "\<not> started s \<Longrightarrow> next_chan rt \<notin> closed rt \<Longrightarrow>
   ChanRateLimiter inChan cb (s, rt) =
     (Inl ErrNotStarted,
      (s, rt\<lparr>next_chan := Suc (next_chan rt), closed := insert (next_chan rt) (closed rt)\<rparr>))"
  by (simp add: make_chan_def GetContextSafe_def getContext_def close_chan_def)

lemma ChanRateLimiter_started:
  "started s \<Longrightarrow>
   fst (ChanRateLimiter inChan cb (s, rt)) = Inr (next_chan rt) \<and>
   closed (snd (snd (ChanRateLimiter inChan cb (s, rt)))) = closed rt"
  by (simp add: make_chan_def GetContextSafe_def getContext_def close_chan_def Stopped_def go_def panic_def
       split: prod.splits)

text \<open>
  C7.  The body of \<open>ChanRateLimiter\<close>: a value received at a time after
  \<open>nextAllowedTriggerTime\<close> is sent to \<open>outChan\<close> and the next allowed time becomes that
  time plus what \<open>maxRateCallback()\<close> returns; a value received at or before it is dropped,
  the body going on as if it had not arrived, the allowed time unchanged.
  \<open>ChanRateLimiter\<close> on a controller that is not started closes the channel it made and
  returns the launch error; on a started controller it returns the channel, open.
\<close>

theorem ChanRateLimiter_forwards:
  "(nextAllowed < now' \<longrightarrow>
      body_311 nextAllowed (Recv_318 data now' rate True # its) =
        (Send_outChan data # fst (body_311 (now' + rate) its),
         snd (body_311 (now' + rate) its))) \<and>
   (now' \<le> nextAllowed \<longrightarrow>
      body_311 nextAllowed (Recv_318 data now' rate taken # its) = body_311 nextAllowed its) \<and>
   body_311 nextAllowed [Recv_318 data now' rate taken] =
     (if nextAllowed < now' \<and> taken then ([Send_outChan data], Running, now' + rate)
      else ([], Running, nextAllowed)) \<and>
   (\<not> started s \<and> next_chan rt \<notin> closed rt \<longrightarrow>
      ChanRateLimiter inChan cb (s, rt) =
        (Inl ErrNotStarted,
         (s, rt\<lparr>next_chan := Suc (next_chan rt),
                closed := insert (next_chan rt) (closed rt)\<rparr>))) \<and>
   (started s \<longrightarrow>
      fst (ChanRateLimiter inChan cb (s, rt)) = Inr (next_chan rt) \<and>
      closed (snd (snd (ChanRateLimiter inChan cb (s, rt)))) = closed rt)"
  using ChanRateLimiter_not_started [of s rt inChan cb] ChanRateLimiter_started [of s inChan cb rt]
  by (simp split: prod.splits del: ChanRateLimiter.simps)

theorem ChanRateLimiter_forwards_witness:
  "body_311 100 [Recv_318 (1::nat) 101 10 True, Recv_318 2 111 10 True, Recv_318 3 112 10 True,
      Done_315] =
     ([Send_outChan 1, Send_outChan 3, Close_outChan], Returned, 122) \<and>
   ChanRateLimiter 5 (0::nat) init_world =
     (Inl ErrNotStarted,
      (zero_StopWaiterSafe, init_runtime\<lparr>next_chan := 1, closed := {0}\<rparr>)) \<and>
   fst (ChanRateLimiter 5 (0::nat) started_world) = Inr 0"
  using ChanRateLimiter_forwards [of 100 101 "1::nat" 10
      "[Recv_318 2 111 10 True, Recv_318 3 112 10 True, Done_315]" True zero_StopWaiterSafe
      "init_runtime :: nat closure runtime" 5 0]
    ChanRateLimiter_forwards [of 111 111 "2::nat" 10
      "[Recv_318 3 112 10 True, Done_315]" True "fst (started_world :: nat closure world)"
      "snd (started_world :: nat closure world)" 5 0]
  by (simp add: init_world_def init_runtime_def zero_StopWaiterSafe_def started_world_eq
      del: ChanRateLimiter.simps)

subsection \<open>\<open>LaunchPromiseThread\<close>\<close>

lemma LaunchPromiseThread_not_started:
  "\<not> started s \<Longrightarrow>
   LaunchPromiseThread foo (s, rt) = (\<lparr>resolutions = [Inl ErrNotStarted], cancelFn = None\<rparr>, (s, rt))"
  by (simp add: GetContextSafe_def getContext_def ProduceError_def NewPromise_def)

lemma LaunchPromiseThread_stopped:
  "started s \<Longrightarrow> stopped s \<Longrightarrow>
   LaunchPromiseThread foo (s, rt) = (\<lparr>resolutions = [Inl ErrStopped], cancelFn = None\<rparr>, (s, rt))"
  by (simp add: GetContextSafe_def getContext_def ProduceError_def NewPromise_def Stopped_def)

lemma LaunchPromiseThread_launches:
  "started s \<Longrightarrow> \<not> stopped s \<Longrightarrow> ctx s = Some c \<Longrightarrow> 0 \<le> wg s \<Longrightarrow>
   LaunchPromiseThread foo (s, rt) =
     (\<lparr>resolutions = [], cancelFn = Some (Derived (next_token rt))\<rparr>,
      (s\<lparr>wg := wg s + 1\<rparr>,
       rt\<lparr>next_token := Suc (next_token rt),
          threads := threads rt @
            [Task T179 (Body_294 foo (Derived (next_token rt) # c) (Derived (next_token rt)))
               (Some c)]\<rparr>))"
  by (simp add: GetContextSafe_def getContext_def ProduceError_def NewPromise_def Stopped_def
      WithCancel_def Let_def go_def)

lemma LaunchPromiseThread_at_most_once:
  "length (resolutions (fst (LaunchPromiseThread foo w))) \<le> 1"
  by (cases w)
    (simp add: GetContextSafe_def getContext_def ProduceError_def NewPromise_def Stopped_def
      WithCancel_def Let_def go_def split: option.splits prod.splits)

lemma body_294_once:
  "resolutions (fst (body_294 r cancel' (p, rt))) = resolutions p @ [r]"
  by (cases r) (simp_all add: ProduceError_def Produce_def)

text \<open>
  C8.  \<open>LaunchPromiseThread\<close> on a controller that is not started returns a promise
  resolved to "not started", on a stopped one a promise resolved to "stopped", and in both
  cases leaves the world as it was: no goroutine, no change of the counter.  On a running
  controller it returns the promise pending and starts the goroutine of line 294, which
  resolves the promise once.  The promise returned has at most one resolution, and none
  when a goroutine was started.
\<close>

theorem LaunchPromiseThread_resolves:
  fixes p :: "'v Promise" and w' :: "'u closure world"
  assumes "LaunchPromiseThread foo (s, rt) = (p, w')"
  shows
  "(\<not> started s \<longrightarrow>
      p = \<lparr>resolutions = [Inl ErrNotStarted], cancelFn = None\<rparr> \<and> w' = (s, rt)) \<and>
   (started s \<and> stopped s \<longrightarrow>
      p = \<lparr>resolutions = [Inl ErrStopped], cancelFn = None\<rparr> \<and> w' = (s, rt)) \<and>
   (started s \<and> \<not> stopped s \<and> ctx s = Some c \<and> 0 \<le> wg s \<longrightarrow>
      p = \<lparr>resolutions = [], cancelFn = Some (Derived (next_token rt))\<rparr> \<and>
      w' = (s\<lparr>wg := wg s + 1\<rparr>,
            rt\<lparr>next_token := Suc (next_token rt),
               threads := threads rt @
                 [Task T179 (Body_294 foo (Derived (next_token rt) # c) (Derived (next_token rt)))
                    (Some c)]\<rparr>)) \<and>
   length (resolutions p) \<le> 1 \<and>
   (threads (snd w') \<noteq> threads rt \<longrightarrow> resolutions p = []) \<and>
   resolutions (fst (body_294 r cancel' (p, rt'))) = resolutions p @ [r]"
proof -
  have launched: "threads (snd w') \<noteq> threads rt \<longrightarrow> resolutions p = []"
    using assms
    by (auto simp add: GetContextSafe_def getContext_def ProduceError_def NewPromise_def Stopped_def
      WithCancel_def Let_def go_def panic_def split: option.splits prod.splits if_splits)
  have "length (resolutions (fst (LaunchPromiseThread foo (s, rt) :: 'v Promise \<times> 'u closure world))) \<le> 1"
    by (rule LaunchPromiseThread_at_most_once)
  then have once: "length (resolutions p) \<le> 1"
    using assms by (simp del: LaunchPromiseThread.simps)
  have a: "\<not> started s \<longrightarrow>
      p = \<lparr>resolutions = [Inl ErrNotStarted], cancelFn = None\<rparr> \<and> w' = (s, rt)"
    using assms by (auto simp add: LaunchPromiseThread_not_started simp del: LaunchPromiseThread.simps)
  have b: "started s \<and> stopped s \<longrightarrow>
      p = \<lparr>resolutions = [Inl ErrStopped], cancelFn = None\<rparr> \<and> w' = (s, rt)"
    using assms by (auto simp add: LaunchPromiseThread_stopped simp del: LaunchPromiseThread.simps)
  have c: "started s \<and> \<not> stopped s \<and> ctx s = Some c \<and> 0 \<le> wg s \<longrightarrow>
      p = \<lparr>resolutions = [], cancelFn = Some (Derived (next_token rt))\<rparr> \<and>
      w' = (s\<lparr>wg := wg s + 1\<rparr>,
            rt\<lparr>next_token := Suc (next_token rt),
               threads := threads rt @
                 [Task T179 (Body_294 foo (Derived (next_token rt) # c) (Derived (next_token rt)))
                    (Some c)]\<rparr>)"
    using assms by (auto simp add: LaunchPromiseThread_launches simp del: LaunchPromiseThread.simps)
  have d: "resolutions (fst (body_294 r cancel' (p, rt'))) = resolutions p @ [r]"
    by (rule body_294_once)
  from a b c once launched d show ?thesis
    by blast
qed

theorem LaunchPromiseThread_resolves_witness:
  "fst (LaunchPromiseThread (0::nat) (init_world :: nat closure world) :: nat Promise \<times> nat closure world) =
     \<lparr>resolutions = [Inl ErrNotStarted], cancelFn = None\<rparr> \<and>
   snd (LaunchPromiseThread (0::nat) (init_world :: nat closure world) :: nat Promise \<times> nat closure world) =
     init_world \<and>
   fst (LaunchPromiseThread (0::nat) (StopOnly started_world :: nat closure world) :: nat Promise \<times> nat closure world) =
     \<lparr>resolutions = [Inl ErrStopped], cancelFn = None\<rparr> \<and>
   snd (LaunchPromiseThread (0::nat) (StopOnly started_world :: nat closure world) :: nat Promise \<times> nat closure world) =
     StopOnly started_world \<and>
   fst (LaunchPromiseThread (0::nat) (started_world :: nat closure world) :: nat Promise \<times> nat closure world) =
     \<lparr>resolutions = [], cancelFn = Some (Derived 1)\<rparr> \<and>
   threads (snd (snd (LaunchPromiseThread (0::nat) (started_world :: nat closure world)
       :: nat Promise \<times> nat closure world))) =
     [Task T179 (Body_294 0 [Derived 1, Derived 0, External 0] (Derived 1))
        (Some [Derived 0, External 0])] \<and>
   resolutions (fst (body_294 (Inr 42) (Derived 1)
       (fst (LaunchPromiseThread (0::nat) (started_world :: nat closure world)
          :: nat Promise \<times> nat closure world),
        init_runtime :: nat closure runtime))) =
     [Inr (42::nat)]"
proof -
  define s0 :: StopWaiterSafe where
    "s0 = \<lparr>started = True, stopped = False, ctx = Some [Derived 0, External 0],
        parentCtx = Some [External 0], stopFunc = Some (Derived 0), name = ''arbnode.Node'',
        waitChan = None, wg = 0\<rparr>"
  define rt0 :: "nat closure runtime" where
    "rt0 = \<lparr>cancelled = {}, closed = {}, next_token = 1, next_chan = 0, threads = [],
        now = 0, logged = [], panicked = False\<rparr>"
  have w0: "(init_world :: nat closure world) = (zero_StopWaiterSafe, init_runtime)"
    by (simp add: init_world_def)
  have w1: "(started_world :: nat closure world) = (s0, rt0)"
    by (simp add: started_world_eq s0_def rt0_def)
  have w2: "StopOnly (s0, rt0) =
      (s0\<lparr>stopped := True\<rparr>, rt0\<lparr>cancelled := {Derived 0}\<rparr>)"
    by (simp add: s0_def rt0_def call_stopFunc_def cancel_def)
  note a = LaunchPromiseThread_resolves [OF prod.collapse [symmetric],
      where foo = "0::nat" and s = zero_StopWaiterSafe
        and rt = "init_runtime :: nat closure runtime" and 'v = nat]
  note b = LaunchPromiseThread_resolves [OF prod.collapse [symmetric],
      where foo = "0::nat" and s = "s0\<lparr>stopped := True\<rparr>"
        and rt = "rt0\<lparr>cancelled := {Derived 0}\<rparr>" and 'v = nat]
  note c = LaunchPromiseThread_resolves [OF prod.collapse [symmetric],
      where foo = "0::nat" and s = s0 and rt = rt0 and 'v = nat
        and c = "[Derived 0, External 0]" and r = "Inr 42" and cancel' = "Derived 1"
        and rt' = "init_runtime :: nat closure runtime"]
  have f0: "\<not> started zero_StopWaiterSafe"
    by (simp add: zero_StopWaiterSafe_def)
  have f1: "started s0" "\<not> stopped s0" "ctx s0 = Some [Derived 0, External 0]" "wg s0 = 0"
    "next_token rt0 = 1" "threads rt0 = []"
    by (simp_all add: s0_def rt0_def)
  have 1: "fst (LaunchPromiseThread (0::nat) (zero_StopWaiterSafe, init_runtime :: nat closure runtime)
        :: nat Promise \<times> nat closure world) =
       \<lparr>resolutions = [Inl ErrNotStarted], cancelFn = None\<rparr> \<and>
     snd (LaunchPromiseThread (0::nat) (zero_StopWaiterSafe, init_runtime :: nat closure runtime)
        :: nat Promise \<times> nat closure world) = (zero_StopWaiterSafe, init_runtime)"
    using a f0 by (simp del: LaunchPromiseThread.simps)
  have 2: "fst (LaunchPromiseThread (0::nat) (s0\<lparr>stopped := True\<rparr>, rt0\<lparr>cancelled := {Derived 0}\<rparr>)
        :: nat Promise \<times> nat closure world) =
       \<lparr>resolutions = [Inl ErrStopped], cancelFn = None\<rparr> \<and>
     snd (LaunchPromiseThread (0::nat) (s0\<lparr>stopped := True\<rparr>, rt0\<lparr>cancelled := {Derived 0}\<rparr>)
        :: nat Promise \<times> nat closure world) = (s0\<lparr>stopped := True\<rparr>, rt0\<lparr>cancelled := {Derived 0}\<rparr>)"
    using b f1 by (simp del: LaunchPromiseThread.simps)
  have 3: "fst (LaunchPromiseThread (0::nat) (s0, rt0) :: nat Promise \<times> nat closure world) =
       \<lparr>resolutions = [], cancelFn = Some (Derived 1)\<rparr> \<and>
     threads (snd (snd (LaunchPromiseThread (0::nat) (s0, rt0) :: nat Promise \<times> nat closure world))) =
       [Task T179 (Body_294 0 [Derived 1, Derived 0, External 0] (Derived 1))
          (Some [Derived 0, External 0])] \<and>
     resolutions (fst (body_294 (Inr 42) (Derived 1)
       (fst (LaunchPromiseThread (0::nat) (s0, rt0) :: nat Promise \<times> nat closure world),
        init_runtime :: nat closure runtime))) = [Inr (42::nat)]"
    using c f1 by (auto simp del: LaunchPromiseThread.simps body_294.simps)
  show ?thesis
    unfolding w0 w1 w2 using 1 2 3 by blast
qed

end
